theory Spec2Isabelle
  imports Complex_Main
begin

section \<open>The open-addressing hash map of \<^verbatim>\<open>utils/data_structures/hashmap.c\<close>\<close>

text \<open>
  Conventions of the embedding.

  \<^item> \<^verbatim>\<open>ui_t\<close> and \<^verbatim>\<open>si_t\<close> are declared in a header that is not part of the sources at hand;
    they are taken to be the 32-bit \<^verbatim>\<open>unsigned int\<close> and \<^verbatim>\<open>int\<close>. Unsigned values are
    natural numbers and every wrap-around is written out as \<open>mod 2 ^ 32\<close>.
  \<^item> A pointer that may be \<^verbatim>\<open>NULL\<close> is an \<open>option\<close>; the payload \<^verbatim>\<open>addr_t value\<close> is the
    address as a number, \<open>0\<close> being \<^verbatim>\<open>NULL\<close>.
  \<^item> A \<^verbatim>\<open>struct hashmap_key\<close> is a view of \<^verbatim>\<open>size\<close> bytes; it is modelled by the list of
    those bytes, and its \<^verbatim>\<open>size\<close> field is the length of the list (below \<open>2 ^ 32\<close> for
    every key that the struct can represent).
  \<^item> Dereferencing \<^verbatim>\<open>NULL\<close>, dividing by zero and reading past the end of an array stop
    the program; they are the values \<open>Inl\<close> of type \<open>fault\<close>.
  \<^item> A computation that does not return is the value \<open>None\<close>.
  \<^item> \<^verbatim>\<open>calloc\<close> may fail: the functions that allocate take the outcome of the allocation
    as a parameter.
  \<^item> The two load-factor thresholds are \<^verbatim>\<open>double\<close>s; they are modelled by rationals, the
    defaults \<^verbatim>\<open>0.8\<close> and \<^verbatim>\<open>0.2\<close> by \<open>4/5\<close> and \<open>1/5\<close>. For every 32-bit size the truncation
    and the comparison computed in \<^verbatim>\<open>double\<close> agree with the exact ones.
  \<^item> \<^verbatim>\<open>hash_func\<close> and \<^verbatim>\<open>probe_func\<close> are only ever set to the two default functions, so
    the calls through these fields are calls of the defaults.
\<close>

datatype fault = NullDeref | DivByZero | OutOfBounds

type_synonym hashmap_key = string

record hashmap_pair =
  pair_key :: hashmap_key
  pair_value :: nat

type_synonym slot = "hashmap_pair option"

record hashmap =
  data_size :: nat
  data_cnt :: nat
  data :: "slot list option"
  prime :: nat
  grow_threshold :: rat
  shrink_threshold :: rat

text \<open>Sequencing of computations that may fault or not return.\<close>

definition bind_res ::
  "(fault + 'a) option \<Rightarrow> ('a \<Rightarrow> (fault + 'b) option) \<Rightarrow> (fault + 'b) option" where
  "bind_res m f = Option.bind m (\<lambda>r. case r of Inl e \<Rightarrow> Some (Inl e) | Inr v \<Rightarrow> f v)"

lemma bind_res_mono [partial_function_mono]:
  assumes mf: "mono_option B" and mg: "\<And>y. mono_option (\<lambda>f. C y f)"
  shows "mono_option (\<lambda>f. bind_res (B f) (\<lambda>y. C y f))"
  unfolding bind_res_def
proof (rule bind_mono [OF mf])
  fix y
  show "mono_option (\<lambda>f. case y of Inl e \<Rightarrow> Some (Inl e) | Inr v \<Rightarrow> C v f)"
    by (cases y) (simp_all add: mg option.const_mono)
qed

subsection \<open>Key comparison\<close>

text \<open>The value of a 32-bit pattern read as \<^verbatim>\<open>si_t\<close>.\<close>

definition si_t :: "nat \<Rightarrow> int" where
  "si_t n = (if n mod 2 ^ 32 < 2 ^ 31 then int (n mod 2 ^ 32) else int (n mod 2 ^ 32) - 2 ^ 32)"

text \<open>
  \<^verbatim>\<open>memcmp\<close> on two buffers of the same length: the difference of the first two bytes
  that differ, read as \<^verbatim>\<open>unsigned char\<close> (C fixes the sign of the result only).
\<close>

fun memcmp :: "string \<Rightarrow> string \<Rightarrow> int" where
  "memcmp (a # as) (b # bs) = (if a = b then memcmp as bs else of_char a - of_char b)"
| "memcmp _ _ = 0"

fun hashmap_key_cmp :: "hashmap_key option \<Rightarrow> hashmap_key option \<Rightarrow> int" where
  "hashmap_key_cmp (Some key1) (Some key2) =
     (if length key1 \<noteq> length key2
      then si_t (nat ((int (length key1) - int (length key2)) mod 2 ^ 32))
      else memcmp key1 key2)"
| "hashmap_key_cmp key1 key2 = (if key1 \<noteq> None then 1 else 0) - (if key2 \<noteq> None then 1 else 0)"

subsection \<open>Probing and hashing\<close>

text \<open>
  The \<^verbatim>\<open>while\<close> loop of \<^verbatim>\<open>hashmap_default_probe_func\<close>. The counter \<^verbatim>\<open>incri\<close> is an \<^verbatim>\<open>int\<close>
  that is added to the unsigned \<^verbatim>\<open>src\<close>; the sum is taken modulo \<open>2 ^ 32\<close>, which also
  covers a counter that has wrapped around.
\<close>

partial_function (option) probe_loop ::
  "slot list \<Rightarrow> nat \<Rightarrow> hashmap_key option \<Rightarrow> nat \<Rightarrow> nat \<Rightarrow> (fault + nat) option" where
  "probe_loop slots n key src incri =
     (if length slots \<le> src then Some (Inl OutOfBounds)
      else (case slots ! src of
              None \<Rightarrow> Some (Inr src)
            | Some p \<Rightarrow>
                if hashmap_key_cmp (Some (pair_key p)) key \<noteq> 0
                then probe_loop slots n key (((src + incri) mod 2 ^ 32) mod n) (incri + 1)
                else Some (Inr src)))"

definition hashmap_default_probe_func ::
  "hashmap option \<Rightarrow> nat \<Rightarrow> hashmap_key option \<Rightarrow> (fault + nat) option" where
  "hashmap_default_probe_func hashmap src key =
     (case hashmap of
        None \<Rightarrow> Some (Inr 0)
      | Some h \<Rightarrow>
          if data_size h = 0 then Some (Inl DivByZero)
          else (case data h of
                  None \<Rightarrow> Some (Inl NullDeref)
                | Some slots \<Rightarrow> probe_loop slots (data_size h) key (src mod data_size h) 1))"

definition hashmap_default_hash_func :: "hashmap_key option \<Rightarrow> nat \<Rightarrow> nat" where
  "hashmap_default_hash_func key p =
     (case key of
        None \<Rightarrow> 0
      | Some k \<Rightarrow> foldl (\<lambda>res c. (res * p + of_char c) mod 2 ^ 32) 0 k)"

subsection \<open>Initialisation\<close>

text \<open>
  \<open>hashmap_init q_ok data_ok\<close>: \<open>q_ok\<close> and \<open>data_ok\<close> say whether the first and the second
  \<^verbatim>\<open>calloc\<close> succeed. The result \<open>Inr h\<close> is a non-null handle to \<open>h\<close>.
\<close>

definition hashmap_init :: "bool \<Rightarrow> bool \<Rightarrow> fault + hashmap" where
  "hashmap_init q_ok data_ok =
     (if \<not> q_ok then Inl NullDeref
      else Inr \<lparr>data_size = 4, data_cnt = 0,
                data = (if data_ok then Some (replicate 4 None) else None),
                prime = 313, grow_threshold = 4 / 5, shrink_threshold = 1 / 5\<rparr>)"

subsection \<open>Insertion and resizing\<close>

text \<open>
  The two load-factor tests: \<^verbatim>\<open>q->data_cnt >= (ui_t)(q->data_size*q->grow_threshold)\<close> of
  \<^verbatim>\<open>hashmap_insert\<close> and \<^verbatim>\<open>q->data_cnt < q->data_size*q->shrink_threshold\<close> of
  \<^verbatim>\<open>hashmap_erase\<close>. The cast to \<^verbatim>\<open>ui_t\<close> truncates; the product is within the range of
  \<^verbatim>\<open>ui_t\<close> for every threshold between 0 and 1.
\<close>

definition grow_due :: "hashmap \<Rightarrow> bool" where
  "grow_due q = (data_cnt q \<ge> nat \<lfloor>of_nat (data_size q) * grow_threshold q\<rfloor>)"

definition shrink_due :: "hashmap \<Rightarrow> bool" where
  "shrink_due q = (of_nat (data_cnt q) < of_nat (data_size q) * shrink_threshold q)"

text \<open>
  \<^verbatim>\<open>hashmap_insert\<close> calls \<^verbatim>\<open>hashmap_grow\<close>, that is \<^verbatim>\<open>hashmap_rehash\<close>, whose loop calls
  \<^verbatim>\<open>hashmap_insert\<close> again. The three bodies are one recursive function on the call
  that is executed; \<open>calloc_ok n\<close> says whether \<^verbatim>\<open>calloc\<close> of \<open>n\<close> slots succeeds.
\<close>

datatype hm_call =
    Call_insert hashmap hashmap_pair
  | Call_rehash hashmap nat "slot list option" nat
  | Call_rehash_loop hashmap "slot list option" nat nat

partial_function (option) hm_exec ::
  "(nat \<Rightarrow> bool) \<Rightarrow> hm_call \<Rightarrow> (fault + hashmap \<times> int) option" where
  "hm_exec calloc_ok c =
     (case c of
        Call_insert q d \<Rightarrow>
          bind_res
            (if grow_due q
             then hm_exec calloc_ok
                    (Call_rehash q ((data_size q * 2) mod 2 ^ 32) (data q) (data_size q))
             else Some (Inr (q, 0)))
            (\<lambda>g. let q1 = fst g;
                     hashval = hashmap_default_hash_func (Some (pair_key d)) (prime q1)
                 in bind_res (hashmap_default_probe_func (Some q1) hashval (Some (pair_key d)))
                      (\<lambda>judge_pos.
                         (case data q1 of
                            None \<Rightarrow> Some (Inl NullDeref)
                          | Some slots \<Rightarrow>
                              if slots ! judge_pos \<noteq> None then Some (Inr (q1, 1))
                              else Some (Inr (q1\<lparr>data := Some (slots[judge_pos := Some d]),
                                                 data_cnt := (data_cnt q1 + 1) mod 2 ^ 32\<rparr>, 0)))))
      | Call_rehash q new_size old old_size \<Rightarrow>
          if \<not> calloc_ok new_size then Some (Inr (q\<lparr>data := old\<rparr>, - 1))
          else hm_exec calloc_ok
                 (Call_rehash_loop
                    (q\<lparr>data := Some (replicate new_size None), data_size := new_size,
                       data_cnt := 0\<rparr>)
                    old old_size 0)
      | Call_rehash_loop q old old_size i \<Rightarrow>
          if i < old_size then
            (case old of
               None \<Rightarrow> Some (Inl NullDeref)
             | Some olds \<Rightarrow>
                 if length olds \<le> i then Some (Inl OutOfBounds)
                 else (case olds ! i of
                         None \<Rightarrow> Some (Inl NullDeref)
                       | Some p \<Rightarrow>
                           if pair_value p \<noteq> 0
                           then bind_res (hm_exec calloc_ok (Call_insert q p))
                                  (\<lambda>r. hm_exec calloc_ok
                                         (Call_rehash_loop (fst r) old old_size (i + 1)))
                           else hm_exec calloc_ok (Call_rehash_loop q old old_size (i + 1))))
          else Some (Inr (q, 0)))"

definition hashmap_rehash ::
  "(nat \<Rightarrow> bool) \<Rightarrow> hashmap \<Rightarrow> nat \<Rightarrow> slot list option \<Rightarrow> nat \<Rightarrow> (fault + hashmap \<times> int) option" where
  "hashmap_rehash calloc_ok q new_size old old_size =
     hm_exec calloc_ok (Call_rehash q new_size old old_size)"

definition hashmap_grow :: "(nat \<Rightarrow> bool) \<Rightarrow> hashmap \<Rightarrow> (fault + hashmap \<times> int) option" where
  "hashmap_grow calloc_ok q =
     hashmap_rehash calloc_ok q ((data_size q * 2) mod 2 ^ 32) (data q) (data_size q)"

definition hashmap_shrink :: "(nat \<Rightarrow> bool) \<Rightarrow> hashmap \<Rightarrow> (fault + hashmap \<times> int) option" where
  "hashmap_shrink calloc_ok q =
     (if data_size q \<le> 4 then Some (Inr (q, 1))
      else hashmap_rehash calloc_ok q (data_size q div 2) (data q) (data_size q))"

text \<open>
  The public entry point: \<open>q\<close> and \<open>pair\<close> are the two pointers; the result is the map
  after the call together with the returned status.
\<close>

definition hashmap_insert ::
  "(nat \<Rightarrow> bool) \<Rightarrow> hashmap option \<Rightarrow> hashmap_pair option \<Rightarrow> (fault + hashmap option \<times> int) option" where
  "hashmap_insert calloc_ok q pair =
     (case (q, pair) of
        (Some h, Some d) \<Rightarrow>
          bind_res (hm_exec calloc_ok (Call_insert h d)) (\<lambda>r. Some (Inr (Some (fst r), snd r)))
      | _ \<Rightarrow> Some (Inr (q, - 1)))"

subsection \<open>Lookup and removal\<close>

definition hashmap_find ::
  "hashmap option \<Rightarrow> hashmap_key option \<Rightarrow> bool \<Rightarrow> (fault + nat) option" where
  "hashmap_find q key free_key =
     (case (q, key) of
        (Some h, Some k) \<Rightarrow>
          (let hashval = hashmap_default_hash_func (Some k) (prime h)
           in bind_res (hashmap_default_probe_func (Some h) hashval (Some k))
                (\<lambda>judge_pos.
                   case data h of
                     None \<Rightarrow> Some (Inl NullDeref)
                   | Some slots \<Rightarrow>
                       (case slots ! judge_pos of
                          Some p \<Rightarrow> Some (Inr (pair_value p))
                        | None \<Rightarrow> Some (Inr 0))))
      | _ \<Rightarrow> Some (Inr 0))"

definition hashmap_erase ::
  "(nat \<Rightarrow> bool) \<Rightarrow> hashmap option \<Rightarrow> hashmap_key option \<Rightarrow> bool \<Rightarrow> (fault + hashmap option \<times> int) option" where
  "hashmap_erase calloc_ok q key free_key =
     (case (q, key) of
        (Some h, Some k) \<Rightarrow>
          (let hashval = hashmap_default_hash_func (Some k) (prime h)
           in bind_res (hashmap_default_probe_func (Some h) hashval (Some k))
                (\<lambda>judge_pos.
                   case data h of
                     None \<Rightarrow> Some (Inl NullDeref)
                   | Some slots \<Rightarrow>
                       if slots ! judge_pos \<noteq> None then
                         (let h1 = h\<lparr>data_cnt := (data_cnt h + 2 ^ 32 - 1) mod 2 ^ 32,
                                     data := Some (slots[judge_pos := None])\<rparr>
                          in if shrink_due h1
                             then bind_res (hashmap_shrink calloc_ok h1)
                                    (\<lambda>r. Some (Inr (Some (fst r), 0)))
                             else Some (Inr (Some h1, 0)))
                       else Some (Inr (Some h, 1))))
      | _ \<Rightarrow> Some (Inr (q, - 1)))"

subsection \<open>Names for the parts of the recursion\<close>

text \<open>
  \<open>insert_call\<close> is the body of \<^verbatim>\<open>hashmap_insert\<close> on two non-null pointers, \<open>store_pair\<close>
  its part after the growth test, and \<open>rehash_loop\<close> the \<^verbatim>\<open>for\<close> loop of
  \<^verbatim>\<open>hashmap_rehash\<close> from index \<open>i\<close> on.
\<close>

definition insert_call ::
  "(nat \<Rightarrow> bool) \<Rightarrow> hashmap \<Rightarrow> hashmap_pair \<Rightarrow> (fault + hashmap \<times> int) option" where
  "insert_call calloc_ok q d = hm_exec calloc_ok (Call_insert q d)"

definition rehash_loop ::
  "(nat \<Rightarrow> bool) \<Rightarrow> hashmap \<Rightarrow> slot list option \<Rightarrow> nat \<Rightarrow> nat \<Rightarrow> (fault + hashmap \<times> int) option" where
  "rehash_loop calloc_ok q old old_size i = hm_exec calloc_ok (Call_rehash_loop q old old_size i)"

definition store_pair :: "hashmap \<Rightarrow> hashmap_pair \<Rightarrow> (fault + hashmap \<times> int) option" where
  "store_pair q1 d =
     (let hashval = hashmap_default_hash_func (Some (pair_key d)) (prime q1)
      in bind_res (hashmap_default_probe_func (Some q1) hashval (Some (pair_key d)))
           (\<lambda>judge_pos.
              (case data q1 of
                 None \<Rightarrow> Some (Inl NullDeref)
               | Some slots \<Rightarrow>
                   if slots ! judge_pos \<noteq> None then Some (Inr (q1, 1))
                   else Some (Inr (q1\<lparr>data := Some (slots[judge_pos := Some d]),
                                      data_cnt := (data_cnt q1 + 1) mod 2 ^ 32\<rparr>, 0)))))"

text \<open>Allocators that always succeed and that always fail.\<close>

definition calloc_always :: "nat \<Rightarrow> bool" where
  "calloc_always n = True"

definition calloc_never :: "nat \<Rightarrow> bool" where
  "calloc_never n = False"

subsection \<open>Sequences of calls\<close>

text \<open>
  A caller holds the handle \<open>q\<close> and calls the three operations one after the other; a
  fault ends the run. An operation that may allocate carries the outcome of its
  allocations.
\<close>

datatype hm_op =
    Op_insert "nat \<Rightarrow> bool" "hashmap_pair option"
  | Op_find "hashmap_key option" bool
  | Op_erase "nat \<Rightarrow> bool" "hashmap_key option" bool

fun run_op :: "hm_op \<Rightarrow> hashmap option \<Rightarrow> (fault + hashmap option) option" where
  "run_op (Op_insert calloc_ok pair) q =
     bind_res (hashmap_insert calloc_ok q pair) (\<lambda>r. Some (Inr (fst r)))"
| "run_op (Op_find key free_key) q =
     bind_res (hashmap_find q key free_key) (\<lambda>r. Some (Inr q))"
| "run_op (Op_erase calloc_ok key free_key) q =
     bind_res (hashmap_erase calloc_ok q key free_key) (\<lambda>r. Some (Inr (fst r)))"

text \<open>The operations other than \<^verbatim>\<open>hashmap_erase\<close> are those for which \<open>is_erase\<close> is false.\<close>

fun is_erase :: "hm_op \<Rightarrow> bool" where
  "is_erase (Op_erase calloc_ok key free_key) = True"
| "is_erase _ = False"

fun run_ops :: "hm_op list \<Rightarrow> hashmap option \<Rightarrow> (fault + hashmap option) option" where
  "run_ops [] q = Some (Inr q)"
| "run_ops (x # xs) q = bind_res (run_op x q) (run_ops xs)"

subsection \<open>The slot that the loop examines after \<open>j\<close> misses\<close>

fun probe_pos :: "nat \<Rightarrow> nat \<Rightarrow> nat \<Rightarrow> nat" where
  "probe_pos n src 0 = src mod n"
| "probe_pos n src (Suc j) = ((probe_pos n src j + Suc j) mod 2 ^ 32) mod n"

text \<open>The negation of the loop condition at slot \<open>i\<close>: the slot is empty or holds an equal key.\<close>

definition probe_stops :: "slot list \<Rightarrow> hashmap_key option \<Rightarrow> nat \<Rightarrow> bool" where
  "probe_stops slots key i =
     (case slots ! i of None \<Rightarrow> True | Some p \<Rightarrow> hashmap_key_cmp (Some (pair_key p)) key = 0)"

text \<open>
  The two statements \<^verbatim>\<open>hashval = (q->hash_func)(key, q->prime)\<close> and
  \<^verbatim>\<open>judge_pos = (q->probe_func)(q, hashval, key)\<close> that open the three operations.
\<close>

definition locate :: "hashmap \<Rightarrow> hashmap_key \<Rightarrow> (fault + nat) option" where
  "locate q k =
     hashmap_default_probe_func (Some q) (hashmap_default_hash_func (Some k) (prime q)) (Some k)"

subsection \<open>The states of the scenarios\<close>

text \<open>An insert whose allocations succeed, and one whose allocations fail.\<close>

definition insert_ok :: "hashmap_pair \<Rightarrow> hm_op" where
  "insert_ok p = Op_insert calloc_always (Some p)"

definition insert_nomem :: "hashmap_pair \<Rightarrow> hm_op" where
  "insert_nomem p = Op_insert calloc_never (Some p)"

definition pair_a :: hashmap_pair where "pair_a = \<lparr>pair_key = ''a'', pair_value = 1\<rparr>"
definition pair_b :: hashmap_pair where "pair_b = \<lparr>pair_key = ''b'', pair_value = 2\<rparr>"
definition pair_c :: hashmap_pair where "pair_c = \<lparr>pair_key = ''c'', pair_value = 3\<rparr>"
definition pair_d :: hashmap_pair where "pair_d = \<lparr>pair_key = ''d'', pair_value = 4\<rparr>"
definition pair_e :: hashmap_pair where "pair_e = \<lparr>pair_key = ''e'', pair_value = 5\<rparr>"

text \<open>A map of capacity 4 with the default parameters, \<open>cnt\<close> occupied slots and the slots \<open>xs\<close>.\<close>

definition map4 :: "nat \<Rightarrow> slot list \<Rightarrow> hashmap" where
  "map4 cnt xs = \<lparr>data_size = 4, data_cnt = cnt, data = Some xs, prime = 313,
                  grow_threshold = 4 / 5, shrink_threshold = 1 / 5\<rparr>"

definition map_empty :: hashmap where
  "map_empty = map4 0 [None, None, None, None]"

definition map_a :: hashmap where
  "map_a = map4 1 [None, Some pair_a, None, None]"

definition map_ab :: hashmap where
  "map_ab = map4 2 [None, Some pair_a, Some pair_b, None]"

definition map_abc :: hashmap where
  "map_abc = map4 3 [None, Some pair_a, Some pair_b, Some pair_c]"

definition map_abcd :: hashmap where
  "map_abcd = map4 4 [Some pair_d, Some pair_a, Some pair_b, Some pair_c]"

definition map_ae :: hashmap where
  "map_ae = map4 2 [None, Some pair_a, Some pair_e, None]"

definition map_e :: hashmap where
  "map_e = map4 1 [None, None, Some pair_e, None]"

definition pair_i9 :: hashmap_pair where "pair_i9 = \<lparr>pair_key = ''i'', pair_value = 9\<rparr>"
definition pair_i10 :: hashmap_pair where "pair_i10 = \<lparr>pair_key = ''i'', pair_value = 10\<rparr>"

text \<open>\<open>a\<close>, \<open>e\<close> and \<open>i\<close> all hash to slot 1; these are two maps that hold \<open>i\<close>.\<close>

definition map_ia :: hashmap where
  "map_ia = map4 2 [Some pair_i9, Some pair_a, None, None]"

definition map_iai :: hashmap where
  "map_iai = map4 3 [Some pair_i9, Some pair_a, Some pair_i10, None]"

definition map_abcd_grown :: hashmap where
  "map_abcd_grown = \<lparr>data_size = 8, data_cnt = 4,
     data = Some [None, Some pair_a, Some pair_b, Some pair_c, Some pair_d, None, None, None],
     prime = 313, grow_threshold = 4 / 5, shrink_threshold = 1 / 5\<rparr>"

subsection \<open>Notions used in the proofs\<close>

text \<open>The capacities that a map can have: the powers of two from \<open>4\<close> to \<open>2 ^ 31\<close>.\<close>

definition cap_ok :: "nat \<Rightarrow> bool" where
  "cap_ok n \<longleftrightarrow> (\<exists>k. 2 \<le> k \<and> k \<le> 31 \<and> n = 2 ^ k)"

text \<open>The property of one call that the induction carries.\<close>

definition call_keeps_cap :: "hm_call \<Rightarrow> (fault + hashmap \<times> int) \<Rightarrow> bool" where
  "call_keeps_cap c y =
     (case c of
        Call_insert q d \<Rightarrow>
          (cap_ok (data_size q) \<longrightarrow> (\<forall>v. y = Inr v \<longrightarrow> cap_ok (data_size (fst v)))) \<and>
          (data_size q = 0 \<longrightarrow> (\<forall>v. y \<noteq> Inr v))
      | Call_rehash q new_size old old_size \<Rightarrow>
          (\<forall>v. y = Inr v \<longrightarrow> data_size (fst v) = data_size q \<or>
              ((cap_ok new_size \<longrightarrow> cap_ok (data_size (fst v))) \<and>
               (new_size = 0 \<longrightarrow> data_size (fst v) = 0)))
      | Call_rehash_loop q old old_size i \<Rightarrow>
          (cap_ok (data_size q) \<longrightarrow> (\<forall>v. y = Inr v \<longrightarrow> cap_ok (data_size (fst v)))) \<and>
          (data_size q = 0 \<longrightarrow> (\<forall>v. y = Inr v \<longrightarrow> data_size (fst v) = 0)))"

text \<open>
  Every key stored in the map is found by its own probe sequence, at the slot that holds
  it; and what the induction over the calls carries for this property.
\<close>

definition chain_ok :: "hashmap \<Rightarrow> bool" where
  "chain_ok q \<longleftrightarrow>
     (case data q of
        None \<Rightarrow> True
      | Some slots \<Rightarrow>
          (\<forall>i<length slots. \<forall>e. slots ! i = Some e \<longrightarrow> locate q (pair_key e) = Some (Inr i)))"

definition call_keeps_chain :: "hm_call \<Rightarrow> (fault + hashmap \<times> int) \<Rightarrow> bool" where
  "call_keeps_chain c y =
     (case c of
        Call_insert q d \<Rightarrow> chain_ok q \<longrightarrow> (\<forall>v. y = Inr v \<longrightarrow> chain_ok (fst v))
      | Call_rehash q new_size old old_size \<Rightarrow>
          (\<forall>v. y = Inr v \<longrightarrow> chain_ok (fst v) \<or> fst v = q\<lparr>data := old\<rparr>)
      | Call_rehash_loop q old old_size i \<Rightarrow>
          chain_ok q \<longrightarrow> (\<forall>v. y = Inr v \<longrightarrow> chain_ok (fst v)))"

text \<open>The sum \<open>0 + 1 + \<dots> + j\<close>.\<close>

fun tri :: "nat \<Rightarrow> nat" where
  "tri 0 = 0"
| "tri (Suc j) = tri j + Suc j"

section \<open>Unfolding the definitions\<close>

lemma bind_res_simps:
  "bind_res None f = None"
  "bind_res (Some (Inl e)) f = Some (Inl e)"
  "bind_res (Some (Inr v)) f = f v"
  by (simp_all add: bind_res_def)

lemma bind_res_cong_weak: "m = m' \<Longrightarrow> bind_res m f = bind_res m' f"
  by simp

lemma bind_res_eq_Inr:
  "bind_res m f = Some (Inr y) \<longleftrightarrow> (\<exists>v. m = Some (Inr v) \<and> f v = Some (Inr y))"
  by (cases m) (auto simp: bind_res_def split: sum.splits)

lemma insert_call_eq:
  "insert_call calloc_ok q d =
     bind_res (if grow_due q then hashmap_grow calloc_ok q else Some (Inr (q, 0)))
       (\<lambda>g. store_pair (fst g) d)"
  unfolding insert_call_def
  by (subst hm_exec.simps) (simp add: hashmap_grow_def hashmap_rehash_def store_pair_def Let_def)

lemma hashmap_rehash_eq:
  "hashmap_rehash calloc_ok q new_size old old_size =
     (if \<not> calloc_ok new_size then Some (Inr (q\<lparr>data := old\<rparr>, - 1))
      else rehash_loop calloc_ok
             (q\<lparr>data := Some (replicate new_size None), data_size := new_size, data_cnt := 0\<rparr>)
             old old_size 0)"
  unfolding hashmap_rehash_def rehash_loop_def
  by (subst hm_exec.simps) simp

lemma rehash_loop_eq:
  "rehash_loop calloc_ok q old old_size i =
     (if i < old_size then
        (case old of
           None \<Rightarrow> Some (Inl NullDeref)
         | Some olds \<Rightarrow>
             if length olds \<le> i then Some (Inl OutOfBounds)
             else (case olds ! i of
                     None \<Rightarrow> Some (Inl NullDeref)
                   | Some p \<Rightarrow>
                       if pair_value p \<noteq> 0
                       then bind_res (insert_call calloc_ok q p)
                              (\<lambda>r. rehash_loop calloc_ok (fst r) old old_size (i + 1))
                       else rehash_loop calloc_ok q old old_size (i + 1)))
      else Some (Inr (q, 0)))"
  unfolding rehash_loop_def insert_call_def
  by (subst hm_exec.simps) simp

lemma hashmap_insert_eq:
  "hashmap_insert calloc_ok (Some h) (Some d) =
     bind_res (insert_call calloc_ok h d) (\<lambda>r. Some (Inr (Some (fst r), snd r)))"
  by (simp add: hashmap_insert_def insert_call_def)

text \<open>The load-factor tests under the default thresholds, in integer arithmetic.\<close>

lemma grow_due_default:
  assumes "grow_threshold q = 4 / 5"
  shows "grow_due q \<longleftrightarrow> 4 * data_size q div 5 \<le> data_cnt q"
proof -
  have "of_nat (data_size q) * (4 / 5 :: rat) = of_int (int (4 * data_size q)) / of_int 5"
    by simp
  then have "\<lfloor>of_nat (data_size q) * (4 / 5 :: rat)\<rfloor> = int (4 * data_size q) div 5"
    by (simp only: floor_divide_of_int_eq)
  then have "nat \<lfloor>of_nat (data_size q) * (4 / 5 :: rat)\<rfloor> = 4 * data_size q div 5"
    by (simp add: nat_div_distrib)
  then show ?thesis
    by (simp add: grow_due_def assms)
qed

lemma shrink_due_default:
  assumes "shrink_threshold q = 1 / 5"
  shows "shrink_due q \<longleftrightarrow> 5 * data_cnt q < data_size q"
proof -
  have "((of_nat (data_cnt q) :: rat) < of_nat (data_size q) * (1 / 5))
        = ((of_nat (5 * data_cnt q) :: rat) < of_nat (data_size q))"
    by (simp add: field_simps)
  then show ?thesis
    by (simp only: shrink_due_def assms of_nat_less_iff)
qed

text \<open>One step of the probing loop.\<close>

lemma probe_loop_empty:
  "src < length slots \<Longrightarrow> slots ! src = None \<Longrightarrow> probe_loop slots n key src incri = Some (Inr src)"
  by (subst probe_loop.simps) simp

lemma probe_loop_equal:
  "src < length slots \<Longrightarrow> slots ! src = Some p \<Longrightarrow> hashmap_key_cmp (Some (pair_key p)) key = 0
   \<Longrightarrow> probe_loop slots n key src incri = Some (Inr src)"
  by (subst probe_loop.simps) simp

lemma probe_loop_miss:
  "src < length slots \<Longrightarrow> slots ! src = Some p \<Longrightarrow> hashmap_key_cmp (Some (pair_key p)) key \<noteq> 0
   \<Longrightarrow> probe_loop slots n key src incri =
       probe_loop slots n key (((src + incri) mod 2 ^ 32) mod n) (incri + 1)"
  by (subst probe_loop.simps) simp

lemma replicate_numeral_unfold: "replicate (numeral k) x = x # replicate (pred_numeral k) x"
  by (simp add: numeral_eq_Suc)

lemma list_update_numeral_unfold:
  "(x # xs)[numeral k := y] = x # xs[pred_numeral k := y]"
  by (simp add: numeral_eq_Suc)

lemmas eval_simps = replicate_numeral_unfold list_update_numeral_unfold
  hashmap_insert_eq insert_call_eq store_pair_def bind_res_simps grow_due_default
  shrink_due_default hashmap_default_probe_func_def hashmap_default_hash_func_def
  probe_loop_empty probe_loop_equal probe_loop_miss hashmap_grow_def hashmap_rehash_eq
  rehash_loop_eq calloc_always_def calloc_never_def hashmap_shrink_def hashmap_find_def
  hashmap_erase_def hashmap_init_def Let_def

lemmas scenario_defs =
  pair_a_def pair_b_def pair_c_def pair_d_def pair_e_def map4_def map_empty_def map_a_def
  map_ab_def map_abc_def map_abcd_def map_ae_def map_e_def map_abcd_grown_def insert_ok_def
  insert_nomem_def pair_i9_def pair_i10_def map_ia_def map_iai_def

section \<open>Allocation failure in \<^verbatim>\<open>hashmap_init\<close>\<close>

text \<open>
  C9. When the first \<^verbatim>\<open>calloc\<close> of \<^verbatim>\<open>hashmap_init\<close> fails, the function writes through the
  null pointer; when only the second fails, it returns a non-null handle to a map whose
  \<^verbatim>\<open>data\<close> is \<^verbatim>\<open>NULL\<close>. In neither case does it return a null handle.
\<close>

theorem hashmap_init_alloc_failure:
  "hashmap_init False False = Inl NullDeref \<and>
   hashmap_init False True = Inl NullDeref \<and>
   hashmap_init True False =
     Inr \<lparr>data_size = 4, data_cnt = 0, data = None, prime = 313,
          grow_threshold = 4 / 5, shrink_threshold = 1 / 5\<rparr>"
  by (simp add: hashmap_init_def)

section \<open>The sign of \<^verbatim>\<open>hashmap_key_cmp\<close>\<close>

text \<open>
  C10. The difference of the two sizes is computed in \<^verbatim>\<open>ui_t\<close> and returned as \<^verbatim>\<open>si_t\<close>: for
  the empty key and a key of \<open>2 ^ 31 + 1\<close> bytes the result is \<open>2 ^ 31 - 1\<close>, which is
  positive although the first key is the shorter one.
\<close>

theorem hashmap_key_cmp_size_wraps:
  "hashmap_key_cmp (Some []) (Some (replicate (2 ^ 31 + 1) (CHR ''a''))) = 2 ^ 31 - 1 \<and>
   length (replicate (2 ^ 31 + 1) (CHR ''a'')) < 2 ^ 32"
  by (simp add: si_t_def)

section \<open>The scenarios\<close>

text \<open>
  C2. The loop of \<^verbatim>\<open>hashmap_rehash\<close> reads \<^verbatim>\<open>old[i]->value\<close> without testing \<^verbatim>\<open>old[i]\<close>: on
  the map that holds \<open>a\<close>, \<open>b\<close> and \<open>c\<close>, whose slot 0 is empty, growing dereferences
  \<^verbatim>\<open>NULL\<close>.
\<close>

theorem rehash_reads_empty_slot:
  "hashmap_init True True = Inr map_empty \<and>
   run_ops [insert_ok pair_a, insert_ok pair_b, insert_ok pair_c] (Some map_empty)
     = Some (Inr (Some map_abc)) \<and>
   data map_abc = Some [None, Some pair_a, Some pair_b, Some pair_c] \<and>
   hashmap_rehash calloc_always map_abc 8 (data map_abc) 4 = Some (Inl NullDeref)"
  by (simp add: eval_simps scenario_defs cong: bind_res_cong_weak)

text \<open>
  C1. After the three inserts of \<open>a\<close>, \<open>b\<close> and \<open>c\<close> the insert of \<open>d\<close> triggers the
  growth, and the call faults instead of returning a map in which the keys can be found.
\<close>

theorem resize_faults_after_three_inserts:
  "run_ops [insert_ok pair_a, insert_ok pair_b, insert_ok pair_c] (Some map_empty)
     = Some (Inr (Some map_abc)) \<and>
   hashmap_find (Some map_abc) (Some ''a'') False = Some (Inr 1) \<and>
   hashmap_find (Some map_abc) (Some ''b'') False = Some (Inr 2) \<and>
   hashmap_find (Some map_abc) (Some ''c'') False = Some (Inr 3) \<and>
   grow_due map_abc \<and>
   hashmap_insert calloc_always (Some map_abc) (Some pair_d) = Some (Inl NullDeref)"
  by (simp add: eval_simps scenario_defs cong: bind_res_cong_weak)

text \<open>
  C8. \<open>a\<close> and \<open>e\<close> hash to slot 1; \<open>e\<close> is stored in slot 2 after a miss on \<open>a\<close>.
  Erasing \<open>a\<close> empties slot 1 without any resize, and the lookup of \<open>e\<close> then stops at
  the empty slot 1 and returns \<^verbatim>\<open>NULL\<close>.
\<close>

theorem erase_hides_other_key:
  "run_ops [insert_ok pair_a, insert_ok pair_e] (Some map_empty)
     = Some (Inr (Some map_ae)) \<and>
   hashmap_find (Some map_ae) (Some ''e'') False = Some (Inr 5) \<and>
   hashmap_erase calloc_always (Some map_ae) (Some ''a'') False = Some (Inr (Some map_e, 0)) \<and>
   data_size map_e = data_size map_ae \<and>
   hashmap_find (Some map_e) (Some ''e'') False = Some (Inr 0)"
  by (simp add: eval_simps scenario_defs cong: bind_res_cong_weak)

text \<open>
  C5, as the claim states it: after the first three inserts the count is 3 and the growth
  test \<open>3 \<ge> (ui_t)(4 * 0.8) = 3\<close> holds, so it is the fourth insert that grows the table; the
  run of the first four inserts ends in a fault there, and so does the run of all five.
\<close>

theorem five_inserts_counterexample:
  "run_ops [insert_ok pair_a, insert_ok pair_b, insert_ok pair_c] (Some map_empty)
     = Some (Inr (Some map_abc)) \<and>
   data_cnt map_abc = 3 \<and> grow_due map_abc \<and>
   run_ops
     [insert_ok pair_a, insert_ok pair_b, insert_ok pair_c, insert_ok pair_d, insert_ok pair_e]
     (Some map_empty)
   = Some (Inl NullDeref) \<and>
   run_ops
     [insert_ok pair_a, insert_ok pair_b, insert_ok pair_c, insert_ok pair_d] (Some map_empty)
   = Some (Inl NullDeref)"
  by (simp add: eval_simps scenario_defs cong: bind_res_cong_weak)

text \<open>
  C5, amended: from the freshly initialised map the inserts of \<open>a\<close>, \<open>b\<close> and \<open>c\<close> with the
  values 1, 2 and 3 succeed and keep the capacity 4, the three keys are found with their
  values, and the growth to capacity 8 is due at the start of the fourth insert.
\<close>

theorem three_inserts_then_growth_due:
  "hashmap_init True True = Inr map_empty \<and>
   hashmap_insert calloc_always (Some map_empty) (Some pair_a) = Some (Inr (Some map_a, 0)) \<and>
   hashmap_insert calloc_always (Some map_a) (Some pair_b) = Some (Inr (Some map_ab, 0)) \<and>
   hashmap_insert calloc_always (Some map_ab) (Some pair_c) = Some (Inr (Some map_abc, 0)) \<and>
   data_size map_empty = 4 \<and> data_size map_a = 4 \<and> data_size map_ab = 4 \<and>
   data_size map_abc = 4 \<and>
   hashmap_find (Some map_abc) (Some ''a'') False = Some (Inr 1) \<and>
   hashmap_find (Some map_abc) (Some ''b'') False = Some (Inr 2) \<and>
   hashmap_find (Some map_abc) (Some ''c'') False = Some (Inr 3) \<and>
   \<not> grow_due map_empty \<and> \<not> grow_due map_a \<and> \<not> grow_due map_ab \<and> grow_due map_abc \<and>
   (data_size map_abc * 2) mod 2 ^ 32 = 8"
  by (simp add: eval_simps scenario_defs cong: bind_res_cong_weak)

section \<open>Properties of the key comparison and of the probing loop\<close>

lemma memcmp_zero_iff: "length k1 = length k2 \<Longrightarrow> memcmp k1 k2 = 0 \<longleftrightarrow> k1 = k2"
proof (induction k1 k2 rule: memcmp.induct)
  case (1 a as b bs)
  then show ?case by (auto simp: of_char_eq_iff)
qed simp_all

lemma si_t_zero_iff: "si_t n = 0 \<longleftrightarrow> n mod 2 ^ 32 = 0"
  by (auto simp: si_t_def)

lemma hashmap_key_cmp_zero_iff:
  assumes "length k1 < 2 ^ 32" and "length k2 < 2 ^ 32"
  shows "hashmap_key_cmp (Some k1) (Some k2) = 0 \<longleftrightarrow> k1 = k2"
proof (cases "length k1 = length k2")
  case True
  then show ?thesis by (simp add: memcmp_zero_iff)
next
  case False
  have "(int (length k1) - int (length k2)) mod 2 ^ 32 \<noteq> 0"
  proof
    assume "(int (length k1) - int (length k2)) mod 2 ^ 32 = 0"
    then have "(2 ^ 32 :: int) dvd int (length k1) - int (length k2)" by (simp add: dvd_eq_mod_eq_0)
    moreover have "\<bar>int (length k1) - int (length k2)\<bar> < 2 ^ 32" using assms by auto
    ultimately have "int (length k1) - int (length k2) = 0"
      using zdvd_not_zless [of "int (length k1) - int (length k2)" "2 ^ 32"]
      by (metis dvd_abs_iff abs_ge_zero abs_zero  zdvd_not_zless order_le_less abs_eq_0)
    with False show False by simp
  qed
  moreover have "(int (length k1) - int (length k2)) mod 2 ^ 32 < 2 ^ 32" by simp
  moreover have "0 \<le> (int (length k1) - int (length k2)) mod 2 ^ 32" by simp
  ultimately show ?thesis using False
    by (auto simp: si_t_zero_iff nat_mod_distrib)
qed



lemma probe_loop_result:
  assumes "probe_loop slots n key src incri = Some (Inr p)"
  shows "p < length slots \<and> probe_stops slots key p"
proof -
  have "\<forall>p'. (Inr p :: fault + nat) = Inr p' \<longrightarrow> p' < length slots \<and> probe_stops slots key p'"
  proof (rule probe_loop.raw_induct
      [where P = "\<lambda>slots n key src incri (y :: fault + nat).
                    \<forall>p. y = Inr p \<longrightarrow> p < length slots \<and> probe_stops slots key p", OF _ assms])
    fix f :: "slot list \<Rightarrow> nat \<Rightarrow> hashmap_key option \<Rightarrow> nat \<Rightarrow> nat \<Rightarrow> (fault + nat) option"
    fix slots n key src incri y
    assume IH: "\<And>slots n key src incri y. f slots n key src incri = Some y \<Longrightarrow>
                  \<forall>p. y = Inr p \<longrightarrow> p < length slots \<and> probe_stops slots key p"
    assume step: "(if length slots \<le> src then Some (Inl OutOfBounds)
      else (case slots ! src of
              None \<Rightarrow> Some (Inr src)
            | Some p \<Rightarrow>
                if hashmap_key_cmp (Some (pair_key p)) key \<noteq> 0
                then f slots n key (((src + incri) mod 2 ^ 32) mod n) (incri + 1)
                else Some (Inr src))) = Some y"
    show "\<forall>p. y = Inr p \<longrightarrow> p < length slots \<and> probe_stops slots key p"
    proof (cases "length slots \<le> src")
      case True
      with step show ?thesis by auto
    next
      case False
      show ?thesis
      proof (cases "slots ! src")
        case None
        with step False show ?thesis by (auto simp: probe_stops_def)
      next
        case (Some e)
        show ?thesis
        proof (cases "hashmap_key_cmp (Some (pair_key e)) key = 0")
          case True
          with step False Some show ?thesis by (auto simp: probe_stops_def)
        next
          case ne: False
          with step False Some
          have "f slots n key (((src + incri) mod 2 ^ 32) mod n) (incri + 1) = Some y" by simp
          from IH [OF this] show ?thesis .
        qed
      qed
    qed
  qed
  then show ?thesis by simp
qed

lemma probe_loop_update:
  assumes run: "probe_loop slots n key src incri = Some (Inr p)"
    and empty: "slots ! p = None"
    and eq: "hashmap_key_cmp (Some (pair_key d)) key = 0"
  shows "probe_loop (slots[p := Some d]) n key src incri = Some (Inr p)"
proof -
  have "\<forall>p'. (Inr p :: fault + nat) = Inr p' \<longrightarrow> slots ! p' = None \<longrightarrow> key = key \<longrightarrow>
          probe_loop (slots[p' := Some d]) n key src incri = Some (Inr p')"
  proof (rule probe_loop.raw_induct
      [where P = "\<lambda>slots n key' src incri (y :: fault + nat).
                    \<forall>p. y = Inr p \<longrightarrow> slots ! p = None \<longrightarrow> key' = key \<longrightarrow>
                      probe_loop (slots[p := Some d]) n key src incri = Some (Inr p)", OF _ run])
    fix f :: "slot list \<Rightarrow> nat \<Rightarrow> hashmap_key option \<Rightarrow> nat \<Rightarrow> nat \<Rightarrow> (fault + nat) option"
    fix slots n key' src incri y
    assume IH: "\<And>slots n key' src incri y. f slots n key' src incri = Some y \<Longrightarrow>
                  \<forall>p. y = Inr p \<longrightarrow> slots ! p = None \<longrightarrow> key' = key \<longrightarrow>
                    probe_loop (slots[p := Some d]) n key src incri = Some (Inr p)"
    assume step: "(if length slots \<le> src then Some (Inl OutOfBounds)
      else (case slots ! src of
              None \<Rightarrow> Some (Inr src)
            | Some p \<Rightarrow>
                if hashmap_key_cmp (Some (pair_key p)) key' \<noteq> 0
                then f slots n key' (((src + incri) mod 2 ^ 32) mod n) (incri + 1)
                else Some (Inr src))) = Some y"
    show "\<forall>p. y = Inr p \<longrightarrow> slots ! p = None \<longrightarrow> key' = key \<longrightarrow>
            probe_loop (slots[p := Some d]) n key src incri = Some (Inr p)"
    proof (intro allI impI)
      fix p
      assume y: "y = Inr p" and empty: "slots ! p = None" and k: "key' = key"
      from step y have src: "src < length slots"
        by (auto split: if_splits)
      show "probe_loop (slots[p := Some d]) n key src incri = Some (Inr p)"
      proof (cases "slots ! src")
        case None
        with step y src have "p = src" by auto
        with src eq show ?thesis
          by (simp add: probe_loop_equal [where p = d])
      next
        case (Some e)
        with empty have ne: "src \<noteq> p" by auto
        show ?thesis
        proof (cases "hashmap_key_cmp (Some (pair_key e)) key = 0")
          case True
          with step y src Some k have "p = src" by auto
          with ne show ?thesis by simp
        next
          case False
          with step y src Some k
          have "f slots n key' (((src + incri) mod 2 ^ 32) mod n) (incri + 1) = Some (Inr p)"
            by auto
          from IH [OF this] empty k
          have "probe_loop (slots[p := Some d]) n key
                  (((src + incri) mod 2 ^ 32) mod n) (incri + 1) = Some (Inr p)"
            by simp
          moreover have "(slots[p := Some d]) ! src = Some e"
            using ne Some by simp
          ultimately show ?thesis
            using src False by (simp add: probe_loop_miss [where p = e])
        qed
      qed
    qed
  qed
  with empty show ?thesis by simp
qed


lemma store_pair_success:
  assumes "store_pair q1 d = Some (Inr (q', 0))"
  shows "\<exists>slots p. data q1 = Some slots \<and> locate q1 (pair_key d) = Some (Inr p) \<and>
           slots ! p = None \<and>
           q' = q1\<lparr>data := Some (slots[p := Some d]), data_cnt := (data_cnt q1 + 1) mod 2 ^ 32\<rparr>"
  using assms
  by (auto simp: store_pair_def locate_def Let_def bind_res_eq_Inr split: option.splits if_splits)

lemma insert_call_success:
  assumes "insert_call calloc_ok q d = Some (Inr (q', 0))"
  shows "\<exists>q1 slots p. data q1 = Some slots \<and> locate q1 (pair_key d) = Some (Inr p) \<and>
           slots ! p = None \<and>
           q' = q1\<lparr>data := Some (slots[p := Some d]), data_cnt := (data_cnt q1 + 1) mod 2 ^ 32\<rparr>"
proof -
  from assms obtain g where "store_pair (fst g) d = Some (Inr (q', 0))"
    by (auto simp: insert_call_eq bind_res_eq_Inr)
  from store_pair_success [OF this] show ?thesis by blast
qed

lemma locate_Inr:
  "locate q k = Some (Inr p) \<longleftrightarrow>
     data_size q \<noteq> 0 \<and>
     (\<exists>slots. data q = Some slots \<and>
        probe_loop slots (data_size q) (Some k)
          (hashmap_default_hash_func (Some k) (prime q) mod data_size q) 1 = Some (Inr p))"
  by (auto simp: locate_def hashmap_default_probe_func_def split: option.splits)

lemma hashmap_find_eq:
  "hashmap_find (Some h) (Some k) free_key =
     bind_res (locate h k)
       (\<lambda>judge_pos.
          case data h of
            None \<Rightarrow> Some (Inl NullDeref)
          | Some slots \<Rightarrow>
              (case slots ! judge_pos of
                 Some p \<Rightarrow> Some (Inr (pair_value p))
               | None \<Rightarrow> Some (Inr 0)))"
  by (simp add: hashmap_find_def locate_def Let_def)

lemma hashmap_key_cmp_refl: "hashmap_key_cmp (Some k) (Some k) = 0"
  by (simp add: memcmp_zero_iff)

section \<open>Insert, then find\<close>

text \<open>
  C3. When \<^verbatim>\<open>hashmap_insert\<close> of a pair returns 0, \<^verbatim>\<open>hashmap_find\<close> on the resulting map with
  any key that compares equal to the key of the pair (same length, same bytes) returns
  the value of the pair. This holds for every map and every outcome of the allocation
  in the insert, whether or not the table has grown.
\<close>

theorem insert_then_find:
  assumes ins: "hashmap_insert calloc_ok (Some q) (Some d) = Some (Inr (Some q', 0))"
    and eq: "hashmap_key_cmp (Some (pair_key d)) (Some k) = 0"
    and len: "length (pair_key d) < 2 ^ 32" "length k < 2 ^ 32"
  shows "hashmap_find (Some q') (Some k) free_key = Some (Inr (pair_value d))"
proof -
  from eq have k: "k = pair_key d"
    using hashmap_key_cmp_zero_iff [OF len] by blast
  from ins have "insert_call calloc_ok q d = Some (Inr (q', 0))"
    by (auto simp: hashmap_insert_eq bind_res_eq_Inr)
  from insert_call_success [OF this] obtain q1 slots p where
    slots: "data q1 = Some slots" and loc: "locate q1 (pair_key d) = Some (Inr p)" and
    empty: "slots ! p = None" and
    q': "q' = q1\<lparr>data := Some (slots[p := Some d]), data_cnt := (data_cnt q1 + 1) mod 2 ^ 32\<rparr>"
    by blast
  from loc slots have size: "data_size q1 \<noteq> 0" and
    run: "probe_loop slots (data_size q1) (Some (pair_key d))
            (hashmap_default_hash_func (Some (pair_key d)) (prime q1) mod data_size q1) 1
          = Some (Inr p)"
    by (simp_all add: locate_Inr)
  from probe_loop_result [OF run] have p: "p < length slots" by simp
  from probe_loop_update [OF run empty hashmap_key_cmp_refl]
  have "locate q' (pair_key d) = Some (Inr p)"
    by (simp add: locate_Inr q' size)
  then show ?thesis
    using p by (simp add: hashmap_find_eq k q' bind_res_simps)
qed

theorem insert_then_find_witness:
  "hashmap_insert calloc_always (Some map_empty) (Some pair_a) = Some (Inr (Some map_a, 0)) \<and>
   hashmap_key_cmp (Some (pair_key pair_a)) (Some ''a'') = 0 \<and>
   length (pair_key pair_a) < 2 ^ 32 \<and> length ''a'' < 2 ^ 32 \<and>
   hashmap_find (Some map_a) (Some ''a'') True = Some (Inr (pair_value pair_a))"
proof -
  have ins: "hashmap_insert calloc_always (Some map_empty) (Some pair_a) = Some (Inr (Some map_a, 0))"
    by (simp add: eval_simps scenario_defs cong: bind_res_cong_weak)
  have eq: "hashmap_key_cmp (Some (pair_key pair_a)) (Some ''a'') = 0"
    by (simp add: pair_a_def)
  have len: "length (pair_key pair_a) < 2 ^ 32" "length ''a'' < 2 ^ 32"
    by (simp_all add: pair_a_def)
  from insert_then_find [OF ins eq len, of True] ins eq len show ?thesis
    by simp
qed

section \<open>Inserting a key that is present\<close>

text \<open>The status \<open>- 1\<close> is the one returned for a null map or a null pair.\<close>

lemma hashmap_insert_null:
  "hashmap_insert calloc_ok None pair = Some (Inr (None, - 1))"
  "hashmap_insert calloc_ok q None = Some (Inr (q, - 1))"
  by (simp_all add: hashmap_insert_def split: option.splits)

text \<open>
  Storing a pair in an empty slot does not disturb the probe sequence of any other stored
  key, so a map built by inserts alone keeps every stored key on its own probe sequence.
\<close>

lemma probe_loop_update_other:
  assumes run: "probe_loop slots n key src incri = Some (Inr i)"
    and empty: "slots ! p = None"
    and other: "slots ! i \<noteq> None"
  shows "probe_loop (slots[p := x]) n key src incri = Some (Inr i)"
proof -
  have "\<forall>i'. (Inr i :: fault + nat) = Inr i' \<longrightarrow> slots ! p = None \<longrightarrow> slots ! i' \<noteq> None \<longrightarrow>
          probe_loop (slots[p := x]) n key src incri = Some (Inr i')"
  proof (rule probe_loop.raw_induct
      [where P = "\<lambda>slots n key src incri (y :: fault + nat).
                    \<forall>i. y = Inr i \<longrightarrow> slots ! p = None \<longrightarrow> slots ! i \<noteq> None \<longrightarrow>
                      probe_loop (slots[p := x]) n key src incri = Some (Inr i)", OF _ run])
    fix f :: "slot list \<Rightarrow> nat \<Rightarrow> hashmap_key option \<Rightarrow> nat \<Rightarrow> nat \<Rightarrow> (fault + nat) option"
    fix slots n key src incri y
    assume IH: "\<And>slots n key src incri y. f slots n key src incri = Some y \<Longrightarrow>
                  \<forall>i. y = Inr i \<longrightarrow> slots ! p = None \<longrightarrow> slots ! i \<noteq> None \<longrightarrow>
                    probe_loop (slots[p := x]) n key src incri = Some (Inr i)"
    assume step: "(if length slots \<le> src then Some (Inl OutOfBounds)
      else (case slots ! src of
              None \<Rightarrow> Some (Inr src)
            | Some p \<Rightarrow>
                if hashmap_key_cmp (Some (pair_key p)) key \<noteq> 0
                then f slots n key (((src + incri) mod 2 ^ 32) mod n) (incri + 1)
                else Some (Inr src))) = Some y"
    show "\<forall>i. y = Inr i \<longrightarrow> slots ! p = None \<longrightarrow> slots ! i \<noteq> None \<longrightarrow>
            probe_loop (slots[p := x]) n key src incri = Some (Inr i)"
    proof (intro allI impI)
      fix i
      assume y: "y = Inr i" and empty: "slots ! p = None" and other: "slots ! i \<noteq> None"
      from step y have src: "src < length slots"
        by (auto split: if_splits)
      show "probe_loop (slots[p := x]) n key src incri = Some (Inr i)"
      proof (cases "slots ! src")
        case None
        with step y src have "i = src" by auto
        with other None show ?thesis by simp
      next
        case (Some e)
        with empty have ne: "src \<noteq> p" by auto
        then have same: "(slots[p := x]) ! src = Some e"
          using Some by simp
        show ?thesis
        proof (cases "hashmap_key_cmp (Some (pair_key e)) key = 0")
          case True
          with step y src Some have "i = src" by auto
          with src same True show ?thesis
            by (simp add: probe_loop_equal [where p = e])
        next
          case False
          with step y src Some
          have "f slots n key (((src + incri) mod 2 ^ 32) mod n) (incri + 1) = Some (Inr i)"
            by auto
          from IH [OF this] empty other
          have "probe_loop (slots[p := x]) n key
                  (((src + incri) mod 2 ^ 32) mod n) (incri + 1) = Some (Inr i)"
            by simp
          with src same False show ?thesis
            by (simp add: probe_loop_miss [where p = e])
        qed
      qed
    qed
  qed
  with empty other show ?thesis by simp
qed

lemma store_pair_cases:
  assumes "store_pair q d = Some (Inr (q', r))" and "data q = Some slots"
  shows "\<exists>p. locate q (pair_key d) = Some (Inr p) \<and>
           ((\<exists>e. slots ! p = Some e \<and> q' = q \<and> r = 1) \<or>
            (slots ! p = None \<and>
             q' = q\<lparr>data := Some (slots[p := Some d]), data_cnt := (data_cnt q + 1) mod 2 ^ 32\<rparr> \<and>
             r = 0))"
  using assms
  by (auto simp: store_pair_def locate_def Let_def bind_res_eq_Inr split: if_splits)

lemma chain_ok_store_pair:
  assumes chain: "chain_ok q" and store: "store_pair q d = Some (Inr v)"
  shows "chain_ok (fst v)"
proof -
  from store obtain slots where slots: "data q = Some slots"
    by (cases "data q")
       (auto simp: store_pair_def Let_def bind_res_eq_Inr hashmap_default_probe_func_def
             split: if_splits)
  from store have "store_pair q d = Some (Inr (fst v, snd v))" by simp
  from store_pair_cases [OF this slots] obtain p where
    loc: "locate q (pair_key d) = Some (Inr p)" and
    res: "(\<exists>e. slots ! p = Some e \<and> fst v = q) \<or>
          (slots ! p = None \<and>
           fst v = q\<lparr>data := Some (slots[p := Some d]), data_cnt := (data_cnt q + 1) mod 2 ^ 32\<rparr>)"
    by blast
  from res show ?thesis
  proof
    assume "\<exists>e. slots ! p = Some e \<and> fst v = q"
    with chain show ?thesis by auto
  next
    assume new: "slots ! p = None \<and>
      fst v = q\<lparr>data := Some (slots[p := Some d]), data_cnt := (data_cnt q + 1) mod 2 ^ 32\<rparr>"
    then have empty: "slots ! p = None" by simp
    from loc slots have size: "data_size q \<noteq> 0" and
      run: "probe_loop slots (data_size q) (Some (pair_key d))
              (hashmap_default_hash_func (Some (pair_key d)) (prime q) mod data_size q) 1
            = Some (Inr p)"
      by (simp_all add: locate_Inr)
    have "locate (fst v) (pair_key e) = Some (Inr i)"
      if i: "i < length slots" and e: "(slots[p := Some d]) ! i = Some e" for i e
    proof (cases "i = p")
      case True
      with i e have "e = d" by simp
      with probe_loop_update [OF run empty hashmap_key_cmp_refl] True show ?thesis
        by (simp add: locate_Inr new size)
    next
      case False
      with e have old: "slots ! i = Some e" by simp
      with chain slots i have "locate q (pair_key e) = Some (Inr i)"
        by (simp add: chain_ok_def)
      with slots have
        "probe_loop slots (data_size q) (Some (pair_key e))
           (hashmap_default_hash_func (Some (pair_key e)) (prime q) mod data_size q) 1
         = Some (Inr i)"
        by (simp add: locate_Inr)
      from probe_loop_update_other [OF this empty, of "Some d"] old show ?thesis
        by (simp add: locate_Inr new size)
    qed
    then show ?thesis
      by (simp add: chain_ok_def new)
  qed
qed

lemma chain_ok_fresh:
  "chain_ok (q\<lparr>data := Some (replicate n None), data_size := n, data_cnt := 0\<rparr>)"
  by (simp add: chain_ok_def)

lemma hm_exec_keeps_chain:
  assumes "hm_exec calloc_ok c = Some y"
  shows "call_keeps_chain c y"
proof (rule hm_exec.raw_induct [where P = "\<lambda>calloc_ok c y. call_keeps_chain c y", OF _ assms])
  fix f :: "(nat \<Rightarrow> bool) \<Rightarrow> hm_call \<Rightarrow> (fault + hashmap \<times> int) option"
  fix calloc_ok c y
  assume IH: "\<And>calloc_ok c y. f calloc_ok c = Some y \<Longrightarrow> call_keeps_chain c y"
  assume step: "(case c of
        Call_insert q d \<Rightarrow>
          bind_res
            (if grow_due q
             then f calloc_ok
                    (Call_rehash q ((data_size q * 2) mod 2 ^ 32) (data q) (data_size q))
             else Some (Inr (q, 0)))
            (\<lambda>g. let q1 = fst g;
                     hashval = hashmap_default_hash_func (Some (pair_key d)) (prime q1)
                 in bind_res (hashmap_default_probe_func (Some q1) hashval (Some (pair_key d)))
                      (\<lambda>judge_pos.
                         (case data q1 of
                            None \<Rightarrow> Some (Inl NullDeref)
                          | Some slots \<Rightarrow>
                              if slots ! judge_pos \<noteq> None then Some (Inr (q1, 1))
                              else Some (Inr (q1\<lparr>data := Some (slots[judge_pos := Some d]),
                                                 data_cnt := (data_cnt q1 + 1) mod 2 ^ 32\<rparr>, 0)))))
      | Call_rehash q new_size old old_size \<Rightarrow>
          if \<not> calloc_ok new_size then Some (Inr (q\<lparr>data := old\<rparr>, - 1))
          else f calloc_ok
                 (Call_rehash_loop
                    (q\<lparr>data := Some (replicate new_size None), data_size := new_size,
                       data_cnt := 0\<rparr>)
                    old old_size 0)
      | Call_rehash_loop q old old_size i \<Rightarrow>
          if i < old_size then
            (case old of
               None \<Rightarrow> Some (Inl NullDeref)
             | Some olds \<Rightarrow>
                 if length olds \<le> i then Some (Inl OutOfBounds)
                 else (case olds ! i of
                         None \<Rightarrow> Some (Inl NullDeref)
                       | Some p \<Rightarrow>
                           if pair_value p \<noteq> 0
                           then bind_res (f calloc_ok (Call_insert q p))
                                  (\<lambda>r. f calloc_ok
                                         (Call_rehash_loop (fst r) old old_size (i + 1)))
                           else f calloc_ok (Call_rehash_loop q old old_size (i + 1))))
          else Some (Inr (q, 0))) = Some y"
  show "call_keeps_chain c y"
  proof (cases c)
    case (Call_insert q d)
    have body: "\<And>g. (let q1 = fst g;
                      hashval = hashmap_default_hash_func (Some (pair_key d)) (prime q1)
                  in bind_res (hashmap_default_probe_func (Some q1) hashval (Some (pair_key d)))
                       (\<lambda>judge_pos.
                          (case data q1 of
                             None \<Rightarrow> Some (Inl NullDeref)
                           | Some slots \<Rightarrow>
                               if slots ! judge_pos \<noteq> None then Some (Inr (q1, 1))
                               else Some (Inr (q1\<lparr>data := Some (slots[judge_pos := Some d]),
                                                  data_cnt := (data_cnt q1 + 1) mod 2 ^ 32\<rparr>, 0)))))
                = store_pair (fst g) d"
      by (simp add: store_pair_def Let_def)
    have "chain_ok (fst v)" if v: "y = Inr v" and q: "chain_ok q" for v
    proof -
      from step v obtain g where
        g: "(if grow_due q
             then f calloc_ok (Call_rehash q ((data_size q * 2) mod 2 ^ 32) (data q) (data_size q))
             else Some (Inr (q, 0))) = Some (Inr g)"
        and store: "store_pair (fst g) d = Some (Inr v)"
        unfolding Call_insert hm_call.case body by (auto simp: bind_res_eq_Inr)
      have "chain_ok (fst g)"
      proof (cases "grow_due q")
        case True
        with g have "call_keeps_chain
            (Call_rehash q ((data_size q * 2) mod 2 ^ 32) (data q) (data_size q)) (Inr g)"
          by (auto intro: IH)
        then have "chain_ok (fst g) \<or> fst g = q\<lparr>data := data q\<rparr>"
          by (simp add: call_keeps_chain_def)
        with q show ?thesis by auto
      next
        case False
        with g have "fst g = q" by auto
        with q show ?thesis by simp
      qed
      from chain_ok_store_pair [OF this store] show ?thesis .
    qed
    then show ?thesis
      unfolding call_keeps_chain_def Call_insert hm_call.case by blast
  next
    case (Call_rehash q new_size old old_size)
    show ?thesis
    proof (cases "calloc_ok new_size")
      case False
      with step Call_rehash show ?thesis
        by (auto simp: call_keeps_chain_def)
    next
      case True
      with step Call_rehash have "call_keeps_chain
          (Call_rehash_loop
             (q\<lparr>data := Some (replicate new_size None), data_size := new_size, data_cnt := 0\<rparr>)
             old old_size 0) y"
        by (auto intro: IH)
      then show ?thesis
        unfolding Call_rehash using chain_ok_fresh [where q = q and n = new_size]
        by (auto simp: call_keeps_chain_def)
    qed
  next
    case (Call_rehash_loop q old old_size i)
    have "chain_ok (fst v)" if v: "y = Inr v" and q: "chain_ok q" for v
    proof (cases "i < old_size")
      case False
      with step v q Call_rehash_loop show ?thesis by auto
    next
      case True
      with step v Call_rehash_loop obtain olds p where
        old: "old = Some olds" "\<not> length olds \<le> i" "olds ! i = Some p"
        by (auto split: option.splits if_splits)
      show ?thesis
      proof (cases "pair_value p \<noteq> 0")
        case False
        with step v Call_rehash_loop True old
        have "call_keeps_chain (Call_rehash_loop q old old_size (i + 1)) (Inr v)"
          by (auto intro: IH)
        with q show ?thesis by (simp add: call_keeps_chain_def)
      next
        case nz: True
        with step v Call_rehash_loop True old obtain r where
          r: "f calloc_ok (Call_insert q p) = Some (Inr r)" and
          rest: "f calloc_ok (Call_rehash_loop (fst r) old old_size (i + 1)) = Some (Inr v)"
          by (auto simp: bind_res_eq_Inr)
        from IH [OF r] IH [OF rest] q show ?thesis
          by (simp add: call_keeps_chain_def)
      qed
    qed
    then show ?thesis
      unfolding call_keeps_chain_def Call_rehash_loop hm_call.case by blast
  qed
qed

lemma insert_call_keeps_chain:
  "chain_ok q \<Longrightarrow> insert_call calloc_ok q d = Some (Inr v) \<Longrightarrow> chain_ok (fst v)"
  using hm_exec_keeps_chain [of calloc_ok "Call_insert q d" "Inr v"]
  by (simp add: insert_call_def call_keeps_chain_def)

lemma run_op_keeps_chain:
  assumes chain: "chain_ok q" and op: "\<not> is_erase x" and run: "run_op x (Some q) = Some (Inr q')"
  shows "\<exists>h. q' = Some h \<and> chain_ok h"
proof (cases x)
  case (Op_insert calloc_ok pair)
  show ?thesis
  proof (cases pair)
    case None
    with run Op_insert have "q' = Some q"
      by (auto simp: hashmap_insert_def bind_res_simps)
    with chain show ?thesis by simp
  next
    case (Some d)
    with run Op_insert obtain v where "insert_call calloc_ok q d = Some (Inr v)" and "q' = Some (fst v)"
      by (auto simp: hashmap_insert_eq bind_res_eq_Inr)
    with insert_call_keeps_chain [OF chain, of calloc_ok d v] show ?thesis by simp
  qed
next
  case (Op_find key free_key)
  with run have "q' = Some q" by (auto simp: bind_res_eq_Inr)
  with chain show ?thesis by simp
next
  case (Op_erase calloc_ok key free_key)
  with op show ?thesis by simp
qed

lemma run_ops_keeps_chain:
  assumes "chain_ok q" and "\<forall>x\<in>set ops. \<not> is_erase x"
    and "run_ops ops (Some q) = Some (Inr q')"
  shows "\<exists>h. q' = Some h \<and> chain_ok h"
  using assms
proof (induction ops arbitrary: q)
  case Nil
  then have "q' = Some q" by simp
  with Nil show ?case by simp
next
  case (Cons x xs)
  from Cons.prems(3) obtain q1 where x: "run_op x (Some q) = Some (Inr q1)"
    and xs: "run_ops xs q1 = Some (Inr q')"
    by (auto simp: bind_res_eq_Inr)
  from Cons.prems(2) have nx: "\<not> is_erase x" and nxs: "\<forall>x\<in>set xs. \<not> is_erase x"
    by simp_all
  from run_op_keeps_chain [OF Cons.prems(1) nx x] obtain h where "q1 = Some h" "chain_ok h"
    by blast
  with Cons.IH [of h] nxs xs show ?case by simp
qed

text \<open>
  C4, as the claim states it, fails in two ways. The growth test comes before the search
  for the key: on the full map of capacity 4 that holds \<open>a\<close>, \<open>b\<close>, \<open>c\<close> and \<open>d\<close> (reached
  when the allocation of the fourth insert fails), inserting \<open>a\<close> again returns 1 but leaves
  a table of capacity 8 in which every pair has moved, and on the map that holds \<open>a\<close>, \<open>b\<close>
  and \<open>c\<close> the same insert starts the growth and faults. And after an erase a present key
  may be off its probe sequence: \<open>a\<close>, \<open>e\<close> and \<open>i\<close> are inserted and \<open>e\<close> is erased, which
  leaves \<open>i\<close> in slot 0 behind the emptied slot 2; with no growth due, inserting \<open>i\<close> again
  returns 0 and stores the key a second time.
\<close>

theorem duplicate_insert_counterexample:
  "run_ops
     [insert_nomem pair_a, insert_nomem pair_b, insert_nomem pair_c, insert_nomem pair_d]
     (Some map_empty) = Some (Inr (Some map_abcd)) \<and>
   hashmap_find (Some map_abcd) (Some ''a'') False = Some (Inr 1) \<and>
   hashmap_insert calloc_always (Some map_abcd) (Some \<lparr>pair_key = ''a'', pair_value = 9\<rparr>)
     = Some (Inr (Some map_abcd_grown, 1)) \<and>
   data_size map_abcd = 4 \<and> data_size map_abcd_grown = 8 \<and>
   hashmap_find (Some map_abc) (Some ''a'') False = Some (Inr 1) \<and>
   hashmap_insert calloc_always (Some map_abc) (Some \<lparr>pair_key = ''a'', pair_value = 9\<rparr>)
     = Some (Inl NullDeref) \<and>
   run_ops
     [insert_ok pair_a, insert_ok pair_e, insert_ok pair_i9,
      Op_erase calloc_always (Some ''e'') False]
     (Some map_empty) = Some (Inr (Some map_ia)) \<and>
   data map_ia = Some [Some pair_i9, Some pair_a, None, None] \<and>
   hashmap_key_cmp (Some (pair_key pair_i9)) (Some (pair_key pair_i10)) = 0 \<and>
   \<not> grow_due map_ia \<and>
   hashmap_insert calloc_always (Some map_ia) (Some pair_i10) = Some (Inr (Some map_iai, 0)) \<and>
   data map_iai = Some [Some pair_i9, Some pair_a, Some pair_i10, None]"
  by (simp add: eval_simps scenario_defs cong: bind_res_cong_weak)

text \<open>
  C4, amended: for every map reached from a freshly initialised map by inserts and finds
  alone, whatever the outcomes of the allocations, in which no growth is due (\<open>data_cnt\<close>
  is below the truncated threshold), and for every pair whose key is equal, by content and
  length, to a key present in some slot of the map, \<^verbatim>\<open>hashmap_insert\<close> returns 1, which is
  neither 0 nor \<open>- 1\<close>, and the map after the call is the map before the call: capacity,
  count and every slot.
\<close>

theorem insert_duplicate_unchanged:
  assumes init: "hashmap_init True True = Inr q0"
    and no_erase: "\<forall>x\<in>set ops. \<not> is_erase x"
    and run: "run_ops ops (Some q0) = Some (Inr (Some q))"
    and no_grow: "\<not> grow_due q"
    and slots: "data q = Some slots"
    and i: "i < length slots"
    and present: "slots ! i = Some e"
    and eq: "hashmap_key_cmp (Some (pair_key e)) (Some (pair_key d)) = 0"
    and len: "length (pair_key e) < 2 ^ 32" "length (pair_key d) < 2 ^ 32"
  shows "hashmap_insert calloc_ok (Some q) (Some d) = Some (Inr (Some q, 1))"
proof -
  from init have "chain_ok q0"
    by (auto simp: hashmap_init_def chain_ok_def)
  from run_ops_keeps_chain [OF this no_erase run] have "chain_ok q"
    by simp
  with slots i present have "locate q (pair_key e) = Some (Inr i)"
    by (simp add: chain_ok_def)
  moreover from eq have "pair_key e = pair_key d"
    using hashmap_key_cmp_zero_iff [OF len] by blast
  ultimately have loc: "locate q (pair_key d) = Some (Inr i)"
    by simp
  then have "store_pair q d = Some (Inr (q, 1))"
    using slots present by (simp add: store_pair_def locate_def Let_def bind_res_simps)
  with no_grow show ?thesis
    by (simp add: hashmap_insert_eq insert_call_eq bind_res_simps)
qed

theorem insert_duplicate_unchanged_witness:
  "hashmap_init True True = Inr map_empty \<and>
   \<not> is_erase (insert_ok pair_a) \<and> \<not> is_erase (insert_nomem pair_b) \<and>
   run_ops [insert_ok pair_a, insert_nomem pair_b] (Some map_empty) = Some (Inr (Some map_ab)) \<and>
   \<not> grow_due map_ab \<and>
   data map_ab = Some [None, Some pair_a, Some pair_b, None] \<and>
   1 < length [None, Some pair_a, Some pair_b, None] \<and>
   [None, Some pair_a, Some pair_b, None] ! 1 = Some pair_a \<and>
   hashmap_key_cmp (Some (pair_key pair_a)) (Some (pair_key \<lparr>pair_key = ''a'', pair_value = 9\<rparr>)) = 0 \<and>
   length (pair_key pair_a) < 2 ^ 32 \<and>
   length (pair_key \<lparr>pair_key = ''a'', pair_value = 9\<rparr>) < 2 ^ 32 \<and>
   hashmap_insert calloc_always (Some map_ab) (Some \<lparr>pair_key = ''a'', pair_value = 9\<rparr>)
     = Some (Inr (Some map_ab, 1))"
proof -
  have init: "hashmap_init True True = Inr map_empty"
    by (simp add: eval_simps scenario_defs)
  have no_erase: "\<forall>x\<in>set [insert_ok pair_a, insert_nomem pair_b]. \<not> is_erase x"
    by (simp add: insert_ok_def insert_nomem_def)
  have run: "run_ops [insert_ok pair_a, insert_nomem pair_b] (Some map_empty)
               = Some (Inr (Some map_ab))"
    by (simp add: eval_simps scenario_defs cong: bind_res_cong_weak)
  have no_grow: "\<not> grow_due map_ab"
    by (simp add: eval_simps scenario_defs)
  have slots: "data map_ab = Some [None, Some pair_a, Some pair_b, None]"
    by (simp add: scenario_defs)
  have i: "1 < length [None, Some pair_a, Some pair_b, None]"
    by simp
  have present: "[None, Some pair_a, Some pair_b, None] ! 1 = Some pair_a"
    by simp
  have eq: "hashmap_key_cmp (Some (pair_key pair_a))
              (Some (pair_key \<lparr>pair_key = ''a'', pair_value = 9\<rparr>)) = 0"
    by (simp add: pair_a_def)
  have len: "length (pair_key pair_a) < 2 ^ 32"
    "length (pair_key \<lparr>pair_key = ''a'', pair_value = 9\<rparr>) < 2 ^ 32"
    by (simp_all add: pair_a_def)
  from no_erase have ops: "\<not> is_erase (insert_ok pair_a)" "\<not> is_erase (insert_nomem pair_b)"
    by simp_all
  from insert_duplicate_unchanged [OF init no_erase run no_grow slots i present eq len,
      of calloc_always]
    init ops run no_grow slots i present eq len
  show ?thesis by blast
qed

section \<open>The capacity\<close>

text \<open>
  Doubling the capacity \<open>2 ^ 31\<close> in \<^verbatim>\<open>ui_t\<close> gives \<open>0\<close>; a table of capacity \<open>0\<close> exists only
  inside the insert that grew it, which then divides by zero in the probe function and
  does not return.
\<close>

lemma cap_ok_double:
  assumes "cap_ok n"
  shows "cap_ok ((n * 2) mod 2 ^ 32) \<or> (n * 2) mod 2 ^ 32 = 0"
proof -
  from assms obtain k where k: "2 \<le> k" "k \<le> 31" "n = 2 ^ k" by (auto simp: cap_ok_def)
  show ?thesis
  proof (cases "k = 31")
    case True
    with k show ?thesis by simp
  next
    case False
    with k have "Suc k \<le> 31" by simp
    have "(2::nat) ^ Suc k < 2 ^ 32"
      by (rule power_strict_increasing) (use \<open>Suc k \<le> 31\<close> in simp_all)
    then have "(n * 2) mod 2 ^ 32 = 2 ^ Suc k" using k by (simp add: mult.commute)
    with k \<open>Suc k \<le> 31\<close> have "cap_ok ((n * 2) mod 2 ^ 32)"
      unfolding cap_ok_def by (intro exI [of _ "Suc k"]) simp
    then show ?thesis ..
  qed
qed

lemma cap_ok_half:
  assumes "cap_ok n" and "\<not> n \<le> 4"
  shows "cap_ok (n div 2)"
proof -
  from assms obtain k where k: "2 \<le> k" "k \<le> 31" "n = 2 ^ k" by (auto simp: cap_ok_def)
  have "k \<noteq> 2" using assms(2) k by auto
  with k obtain j where j: "k = Suc j" "2 \<le> j" by (cases k) auto
  with k have "n div 2 = 2 ^ j" by simp
  with j k show ?thesis unfolding cap_ok_def by (intro exI [of _ j]) simp
qed

lemma cap_ok_nonzero: "cap_ok n \<Longrightarrow> n \<noteq> 0"
  by (auto simp: cap_ok_def)

lemma store_pair_data_size:
  assumes "store_pair q d = Some (Inr (q', r))"
  shows "data_size q' = data_size q \<and> data_size q \<noteq> 0"
  using assms
  by (auto simp: store_pair_def Let_def bind_res_eq_Inr hashmap_default_probe_func_def
           split: option.splits if_splits)

lemma grow_due_zero: "data_size q = 0 \<Longrightarrow> grow_due q"
  by (simp add: grow_due_def)

lemma hm_exec_keeps_cap:
  assumes "hm_exec calloc_ok c = Some y"
  shows "call_keeps_cap c y"
proof (rule hm_exec.raw_induct [where P = "\<lambda>calloc_ok c y. call_keeps_cap c y", OF _ assms])
  fix f :: "(nat \<Rightarrow> bool) \<Rightarrow> hm_call \<Rightarrow> (fault + hashmap \<times> int) option"
  fix calloc_ok c y
  assume IH: "\<And>calloc_ok c y. f calloc_ok c = Some y \<Longrightarrow> call_keeps_cap c y"
  assume step: "(case c of
        Call_insert q d \<Rightarrow>
          bind_res
            (if grow_due q
             then f calloc_ok
                    (Call_rehash q ((data_size q * 2) mod 2 ^ 32) (data q) (data_size q))
             else Some (Inr (q, 0)))
            (\<lambda>g. let q1 = fst g;
                     hashval = hashmap_default_hash_func (Some (pair_key d)) (prime q1)
                 in bind_res (hashmap_default_probe_func (Some q1) hashval (Some (pair_key d)))
                      (\<lambda>judge_pos.
                         (case data q1 of
                            None \<Rightarrow> Some (Inl NullDeref)
                          | Some slots \<Rightarrow>
                              if slots ! judge_pos \<noteq> None then Some (Inr (q1, 1))
                              else Some (Inr (q1\<lparr>data := Some (slots[judge_pos := Some d]),
                                                 data_cnt := (data_cnt q1 + 1) mod 2 ^ 32\<rparr>, 0)))))
      | Call_rehash q new_size old old_size \<Rightarrow>
          if \<not> calloc_ok new_size then Some (Inr (q\<lparr>data := old\<rparr>, - 1))
          else f calloc_ok
                 (Call_rehash_loop
                    (q\<lparr>data := Some (replicate new_size None), data_size := new_size,
                       data_cnt := 0\<rparr>)
                    old old_size 0)
      | Call_rehash_loop q old old_size i \<Rightarrow>
          if i < old_size then
            (case old of
               None \<Rightarrow> Some (Inl NullDeref)
             | Some olds \<Rightarrow>
                 if length olds \<le> i then Some (Inl OutOfBounds)
                 else (case olds ! i of
                         None \<Rightarrow> Some (Inl NullDeref)
                       | Some p \<Rightarrow>
                           if pair_value p \<noteq> 0
                           then bind_res (f calloc_ok (Call_insert q p))
                                  (\<lambda>r. f calloc_ok
                                         (Call_rehash_loop (fst r) old old_size (i + 1)))
                           else f calloc_ok (Call_rehash_loop q old old_size (i + 1))))
          else Some (Inr (q, 0))) = Some y"
  show "call_keeps_cap c y"
  proof (cases c)
    case (Call_insert q d)
    have body: "\<And>g. (let q1 = fst g;
                      hashval = hashmap_default_hash_func (Some (pair_key d)) (prime q1)
                  in bind_res (hashmap_default_probe_func (Some q1) hashval (Some (pair_key d)))
                       (\<lambda>judge_pos.
                          (case data q1 of
                             None \<Rightarrow> Some (Inl NullDeref)
                           | Some slots \<Rightarrow>
                               if slots ! judge_pos \<noteq> None then Some (Inr (q1, 1))
                               else Some (Inr (q1\<lparr>data := Some (slots[judge_pos := Some d]),
                                                  data_cnt := (data_cnt q1 + 1) mod 2 ^ 32\<rparr>, 0)))))
                = store_pair (fst g) d"
      by (simp add: store_pair_def Let_def)
    have "cap_ok (data_size (fst v)) \<and> data_size q \<noteq> 0"
      if v: "y = Inr v" and q: "cap_ok (data_size q) \<or> data_size q = 0" for v
    proof -
      from step v obtain g where
        g: "(if grow_due q
             then f calloc_ok (Call_rehash q ((data_size q * 2) mod 2 ^ 32) (data q) (data_size q))
             else Some (Inr (q, 0))) = Some (Inr g)"
        and store: "store_pair (fst g) d = Some (Inr v)"
        unfolding Call_insert hm_call.case body by (auto simp: bind_res_eq_Inr)
      from store_pair_data_size [of "fst g" d "fst v" "snd v"] store
      have size: "data_size (fst v) = data_size (fst g)" "data_size (fst g) \<noteq> 0"
        by simp_all
      show ?thesis
      proof (cases "grow_due q")
        case True
        with g have "call_keeps_cap
            (Call_rehash q ((data_size q * 2) mod 2 ^ 32) (data q) (data_size q)) (Inr g)"
          by (auto intro: IH)
        then have alt: "data_size (fst g) = data_size q \<or>
            ((cap_ok ((data_size q * 2) mod 2 ^ 32) \<longrightarrow> cap_ok (data_size (fst g))) \<and>
             ((data_size q * 2) mod 2 ^ 32 = 0 \<longrightarrow> data_size (fst g) = 0))"
          by (simp add: call_keeps_cap_def)
        from q show ?thesis
        proof
          assume ok: "cap_ok (data_size q)"
          from cap_ok_double [OF ok] alt size ok show ?thesis
            by (auto simp: cap_ok_nonzero)
        next
          assume "data_size q = 0"
          with alt size show ?thesis by auto
        qed
      next
        case False
        with g have "fst g = q" by auto
        with size q False show ?thesis by (auto simp: grow_due_zero)
      qed
    qed
    then show ?thesis
      unfolding call_keeps_cap_def Call_insert hm_call.case by blast
  next
    case (Call_rehash q new_size old old_size)
    show ?thesis
    proof (cases "calloc_ok new_size")
      case False
      with step Call_rehash show ?thesis
        by (auto simp: call_keeps_cap_def)
    next
      case True
      with step Call_rehash have "call_keeps_cap
          (Call_rehash_loop
             (q\<lparr>data := Some (replicate new_size None), data_size := new_size, data_cnt := 0\<rparr>)
             old old_size 0) y"
        by (auto intro: IH)
      then show ?thesis
        unfolding Call_rehash by (auto simp: call_keeps_cap_def)
    qed
  next
    case (Call_rehash_loop q old old_size i)
    have "(data_size q = 0 \<longrightarrow> data_size (fst v) = 0) \<and>
          (cap_ok (data_size q) \<longrightarrow> cap_ok (data_size (fst v)))"
      if v: "y = Inr v" for v
    proof (cases "i < old_size")
      case False
      with step v Call_rehash_loop show ?thesis by auto
    next
      case True
      with step v Call_rehash_loop obtain olds p where
        old: "old = Some olds" "\<not> length olds \<le> i" "olds ! i = Some p"
        by (auto split: option.splits if_splits)
      show ?thesis
      proof (cases "pair_value p \<noteq> 0")
        case False
        with step v Call_rehash_loop True old
        have "call_keeps_cap (Call_rehash_loop q old old_size (i + 1)) (Inr v)"
          by (auto intro: IH)
        then show ?thesis by (simp add: call_keeps_cap_def)
      next
        case nz: True
        with step v Call_rehash_loop True old obtain r where
          r: "f calloc_ok (Call_insert q p) = Some (Inr r)" and
          rest: "f calloc_ok (Call_rehash_loop (fst r) old old_size (i + 1)) = Some (Inr v)"
          by (auto simp: bind_res_eq_Inr)
        from IH [OF r] IH [OF rest] show ?thesis
          by (simp add: call_keeps_cap_def)
      qed
    qed
    then show ?thesis
      unfolding call_keeps_cap_def Call_rehash_loop hm_call.case by blast
  qed
qed

lemma insert_call_keeps_cap:
  "cap_ok (data_size q) \<Longrightarrow> insert_call calloc_ok q d = Some (Inr v) \<Longrightarrow> cap_ok (data_size (fst v))"
  using hm_exec_keeps_cap [of calloc_ok "Call_insert q d" "Inr v"]
  by (simp add: insert_call_def call_keeps_cap_def)

lemma hashmap_rehash_keeps_cap:
  "cap_ok (data_size q) \<Longrightarrow> cap_ok new_size \<Longrightarrow>
   hashmap_rehash calloc_ok q new_size old old_size = Some (Inr v) \<Longrightarrow> cap_ok (data_size (fst v))"
  using hm_exec_keeps_cap [of calloc_ok "Call_rehash q new_size old old_size" "Inr v"]
  by (auto simp: hashmap_rehash_def call_keeps_cap_def)

lemma hashmap_shrink_keeps_cap:
  assumes "cap_ok (data_size q)" and "hashmap_shrink calloc_ok q = Some (Inr v)"
  shows "cap_ok (data_size (fst v))"
proof (cases "data_size q \<le> 4")
  case True
  with assms show ?thesis by (auto simp: hashmap_shrink_def)
next
  case False
  with assms(2) have "hashmap_rehash calloc_ok q (data_size q div 2) (data q) (data_size q) = Some (Inr v)"
    by (simp add: hashmap_shrink_def)
  from hashmap_rehash_keeps_cap [OF assms(1) cap_ok_half [OF assms(1) False] this]
  show ?thesis .
qed

lemma hashmap_erase_eq:
  "hashmap_erase calloc_ok (Some h) (Some k) free_key =
     bind_res (locate h k)
       (\<lambda>judge_pos.
          case data h of
            None \<Rightarrow> Some (Inl NullDeref)
          | Some slots \<Rightarrow>
              if slots ! judge_pos \<noteq> None then
                (let h1 = h\<lparr>data_cnt := (data_cnt h + 2 ^ 32 - 1) mod 2 ^ 32,
                            data := Some (slots[judge_pos := None])\<rparr>
                 in if shrink_due h1
                    then bind_res (hashmap_shrink calloc_ok h1) (\<lambda>r. Some (Inr (Some (fst r), 0)))
                    else Some (Inr (Some h1, 0)))
              else Some (Inr (Some h, 1)))"
  by (simp add: hashmap_erase_def locate_def Let_def)

lemma hashmap_erase_keeps_cap:
  assumes cap: "cap_ok (data_size q)"
    and run: "hashmap_erase calloc_ok (Some q) key free_key = Some (Inr v)"
  shows "\<exists>h. fst v = Some h \<and> cap_ok (data_size h)"
proof (cases key)
  case None
  with run have "fst v = Some q" by (auto simp: hashmap_erase_def)
  with cap show ?thesis by simp
next
  case (Some k)
  from run have "hashmap_erase calloc_ok (Some q) (Some k) free_key = Some (Inr v)"
    unfolding Some .
  then obtain p where
    body: "(case data q of
              None \<Rightarrow> Some (Inl NullDeref)
            | Some slots \<Rightarrow>
                if slots ! p \<noteq> None then
                  (let h1 = q\<lparr>data_cnt := (data_cnt q + 2 ^ 32 - 1) mod 2 ^ 32,
                              data := Some (slots[p := None])\<rparr>
                   in if shrink_due h1
                      then bind_res (hashmap_shrink calloc_ok h1) (\<lambda>r. Some (Inr (Some (fst r), 0)))
                      else Some (Inr (Some h1, 0)))
                else Some (Inr (Some q, 1))) = Some (Inr v)"
    unfolding hashmap_erase_eq bind_res_eq_Inr by blast
  then obtain slots where slots: "data q = Some slots"
    by (cases "data q") simp_all
  from body have
    res: "(if slots ! p \<noteq> None then
             (let h1 = q\<lparr>data_cnt := (data_cnt q + 2 ^ 32 - 1) mod 2 ^ 32,
                         data := Some (slots[p := None])\<rparr>
              in if shrink_due h1
                 then bind_res (hashmap_shrink calloc_ok h1) (\<lambda>r. Some (Inr (Some (fst r), 0)))
                 else Some (Inr (Some h1, 0)))
           else Some (Inr (Some q, 1))) = Some (Inr v)"
    unfolding slots option.case .
  show ?thesis
  proof (cases "slots ! p")
    case None
    with res have "fst v = Some q" by auto
    with cap show ?thesis by simp
  next
    case (Some e)
    define h1 where "h1 = q\<lparr>data_cnt := (data_cnt q + 2 ^ 32 - 1) mod 2 ^ 32,
                              data := Some (slots[p := None])\<rparr>"
    from cap have h1: "cap_ok (data_size h1)" by (simp add: h1_def)
    from res Some
    have alt: "(if shrink_due h1
           then bind_res (hashmap_shrink calloc_ok h1) (\<lambda>r. Some (Inr (Some (fst r), 0)))
           else Some (Inr (Some h1, 0))) = Some (Inr v)"
      unfolding h1_def Let_def by simp
    show ?thesis
    proof (cases "shrink_due h1")
      case True
      with alt obtain r where "hashmap_shrink calloc_ok h1 = Some (Inr r)" "fst v = Some (fst r)"
        by (auto simp: bind_res_eq_Inr)
      with hashmap_shrink_keeps_cap [OF h1, of calloc_ok r] show ?thesis by simp
    next
      case False
      with alt have "fst v = Some h1" by auto
      with h1 show ?thesis by simp
    qed
  qed
qed

lemma run_op_keeps_cap:
  assumes cap: "cap_ok (data_size q)" and run: "run_op x (Some q) = Some (Inr q')"
  shows "\<exists>h. q' = Some h \<and> cap_ok (data_size h)"
proof (cases x)
  case (Op_insert calloc_ok pair)
  show ?thesis
  proof (cases pair)
    case None
    with run Op_insert have "q' = Some q"
      by (auto simp: hashmap_insert_def bind_res_simps)
    with cap show ?thesis by simp
  next
    case (Some d)
    with run Op_insert obtain v where "insert_call calloc_ok q d = Some (Inr v)" and "q' = Some (fst v)"
      by (auto simp: hashmap_insert_eq bind_res_eq_Inr)
    with insert_call_keeps_cap [OF cap, of calloc_ok d v] show ?thesis by simp
  qed
next
  case (Op_find key free_key)
  with run have "q' = Some q" by (auto simp: bind_res_eq_Inr)
  with cap show ?thesis by simp
next
  case (Op_erase calloc_ok key free_key)
  with run obtain v where "hashmap_erase calloc_ok (Some q) key free_key = Some (Inr v)"
    and "q' = fst v"
    by (auto simp: bind_res_eq_Inr)
  with hashmap_erase_keeps_cap [OF cap, of calloc_ok key free_key v] show ?thesis by simp
qed

lemma run_ops_keeps_cap:
  assumes "cap_ok (data_size q)" and "run_ops ops (Some q) = Some (Inr q')"
  shows "\<exists>h. q' = Some h \<and> cap_ok (data_size h)"
  using assms
proof (induction ops arbitrary: q)
  case Nil
  then have "q' = Some q" by simp
  with Nil show ?case by simp
next
  case (Cons x xs)
  from Cons.prems(2) obtain q1 where x: "run_op x (Some q) = Some (Inr q1)"
    and xs: "run_ops xs q1 = Some (Inr q')"
    by (auto simp: bind_res_eq_Inr)
  from run_op_keeps_cap [OF Cons.prems(1) x] obtain h where "q1 = Some h" "cap_ok (data_size h)"
    by blast
  with Cons.IH [of h] xs show ?case by simp
qed

text \<open>
  C6. Whatever sequence of inserts, finds and erases is applied to a freshly initialised
  map, and whatever the outcomes of the allocations in it, a run that returns leaves a
  map whose capacity is a power of two and at least 4.
\<close>

theorem capacity_invariant:
  assumes init: "hashmap_init True True = Inr q0"
    and run: "run_ops ops (Some q0) = Some (Inr q)"
  shows "\<exists>h k. q = Some h \<and> data_size h = 2 ^ k \<and> 4 \<le> data_size h"
proof -
  have "cap_ok 4"
    unfolding cap_ok_def by (intro exI [of _ 2]) simp
  moreover from init have "data_size q0 = 4"
    by (auto simp: hashmap_init_def)
  ultimately have "cap_ok (data_size q0)" by simp
  from run_ops_keeps_cap [OF this run] obtain h k where
    h: "q = Some h" and k: "2 \<le> k" "data_size h = 2 ^ k"
    by (auto simp: cap_ok_def)
  from k(1) have "(2::nat) ^ 2 \<le> 2 ^ k"
    by (rule power_increasing) simp
  with h k show ?thesis by simp
qed

theorem capacity_invariant_witness:
  "hashmap_init True True = Inr map_empty \<and>
   run_ops [insert_ok pair_a, insert_ok pair_e, Op_erase calloc_always (Some ''a'') False,
            Op_find (Some ''e'') False] (Some map_empty) = Some (Inr (Some map_e)) \<and>
   (\<exists>k. data_size map_e = 2 ^ k \<and> 4 \<le> data_size map_e)"
proof -
  have init: "hashmap_init True True = Inr map_empty"
    by (simp add: eval_simps scenario_defs)
  have run: "run_ops [insert_ok pair_a, insert_ok pair_e, Op_erase calloc_always (Some ''a'') False,
                      Op_find (Some ''e'') False] (Some map_empty) = Some (Inr (Some map_e))"
    by (simp add: eval_simps scenario_defs cong: bind_res_cong_weak)
  from capacity_invariant [OF init run] init run show ?thesis
    by simp
qed

section \<open>An empty slot stops the migration\<close>

text \<open>
  The general form of the fault of \<^verbatim>\<open>hashmap_rehash\<close>: when the old array has an empty slot
  at or after the index \<open>i\<close>, the loop from \<open>i\<close> on never returns normally.
\<close>

lemma rehash_loop_empty_slot:
  assumes "olds ! j = None" and "j < length olds" and "j < old_size" and "i \<le> j"
  shows "rehash_loop calloc_ok q (Some olds) old_size i \<noteq> Some (Inr r)"
  using assms(4)
proof (induction "j - i" arbitrary: i q)
  case 0
  with assms have "i = j" by simp
  with assms show ?case
    by (subst rehash_loop_eq) simp
next
  case (Suc k)
  then have i: "i < j" "i < old_size" "i < length olds" and k: "k = j - (i + 1)" "i + 1 \<le> j"
    using assms by simp_all
  show ?case
  proof (cases "olds ! i")
    case None
    with i show ?thesis by (subst rehash_loop_eq) simp
  next
    case (Some p)
    show ?thesis
    proof (cases "pair_value p \<noteq> 0")
      case True
      have "bind_res (insert_call calloc_ok q p)
              (\<lambda>s. rehash_loop calloc_ok (fst s) (Some olds) old_size (i + 1)) \<noteq> Some (Inr r)"
        using Suc.hyps(1) [OF k] by (auto simp: bind_res_eq_Inr)
      with i Some True show ?thesis by (subst rehash_loop_eq) simp
    next
      case False
      with i Some Suc.hyps(1) [OF k, of q] show ?thesis by (subst rehash_loop_eq) simp
    qed
  qed
qed

section \<open>Termination of the probing loop\<close>

lemma tri_double: "2 * tri j = j * (j + 1)"
  by (induction j) simp_all

lemma probe_pos_tri:
  assumes "n dvd 2 ^ 32"
  shows "probe_pos n src j = (src + tri j) mod n"
proof (induction j)
  case 0
  then show ?case by simp
next
  case (Suc j)
  have "probe_pos n src (Suc j) = ((src + tri j) mod n + Suc j) mod 2 ^ 32 mod n"
    using Suc by simp
  also have "\<dots> = ((src + tri j) mod n + Suc j) mod n"
    using assms by (rule mod_mod_cancel)
  also have "\<dots> = (src + tri j + Suc j) mod n"
    by (simp only: mod_add_left_eq)
  finally show ?case by (simp add: add.assoc)
qed

lemma tri_mod_inj:
  assumes "i < j" and "j < 2 ^ k"
  shows "tri i mod 2 ^ k \<noteq> tri j mod 2 ^ k"
proof
  assume eq: "tri i mod 2 ^ k = tri j mod 2 ^ k"
  have mono: "tri i \<le> tri j"
    using assms(1) by (induction j) (auto simp: less_Suc_eq)
  from eq have "(2::nat) ^ k dvd tri j - tri i"
    using mono by (metis mod_eq_dvd_iff_nat)
  then have "2 * 2 ^ k dvd 2 * (tri j - tri i)"
    by (rule mult_dvd_mono [OF dvd_refl])
  moreover have "2 * (tri j - tri i) = (j - i) * (i + j + 1)"
  proof -
    define d where "d = j - i"
    with assms(1) have j: "j = i + d" by simp
    have "(i + d) * (i + d + 1) = i * (i + 1) + d * (i + (i + d) + 1)"
      by (simp add: algebra_simps)
    then have "2 * tri j = 2 * tri i + d * (i + j + 1)"
      by (simp only: tri_double j)
    then have "2 * (tri j - tri i) = d * (i + j + 1)"
      by (simp only: diff_mult_distrib2 add_diff_cancel_left')
    then show ?thesis by (simp only: d_def)
  qed
  ultimately have dvd: "(2::nat) ^ Suc k dvd (j - i) * (i + j + 1)"
    by simp
  have pos1: "0 < j - i" and lt1: "j - i < 2 ^ Suc k"
    using assms by simp_all
  have pos2: "0 < i + j + 1" and lt2: "i + j + 1 < 2 ^ Suc k"
    using assms by simp_all
  show False
  proof (cases "even (j - i)")
    case True
    then have "odd (i + j + 1)" using assms(1) by presburger
    then have "coprime (2 ^ Suc k) (i + j + 1)"
      by (simp only: coprime_left_2_iff_odd coprime_power_left_iff) simp
    with dvd have "(2::nat) ^ Suc k dvd j - i"
      by (simp only: coprime_dvd_mult_left_iff)
    with pos1 lt1 show False
      by (auto dest: dvd_imp_le)
  next
    case False
    then have "coprime (2 ^ Suc k) (j - i)"
      by (simp only: coprime_left_2_iff_odd coprime_power_left_iff) simp
    with dvd have "(2::nat) ^ Suc k dvd i + j + 1"
      by (simp only: coprime_dvd_mult_right_iff)
    with pos2 lt2 show False
      by (auto dest: dvd_imp_le)
  qed
qed

lemma probe_pos_less: "0 < n \<Longrightarrow> probe_pos n src j < n"
  by (cases j) simp_all

lemma probe_pos_inj:
  assumes "k \<le> 32" and "i < j" and "j < 2 ^ k"
  shows "probe_pos (2 ^ k) src i \<noteq> probe_pos (2 ^ k) src j"
proof
  assume eq: "probe_pos (2 ^ k) src i = probe_pos (2 ^ k) src j"
  have dvd: "(2::nat) ^ k dvd 2 ^ 32"
    using assms(1) by (rule le_imp_power_dvd)
  have mono: "tri i \<le> tri j"
    using assms(2) by (induction j) (auto simp: less_Suc_eq)
  from eq have "(src + tri j) mod 2 ^ k = (src + tri i) mod 2 ^ k"
    by (simp only: probe_pos_tri [OF dvd])
  moreover have "src + tri i \<le> src + tri j"
    using mono by simp
  ultimately have "(2::nat) ^ k dvd (src + tri j) - (src + tri i)"
    by (simp only: mod_eq_dvd_iff_nat)
  then have "(2::nat) ^ k dvd tri j - tri i"
    by simp
  with mono have "tri j mod 2 ^ k = tri i mod 2 ^ k"
    by (simp only: mod_eq_dvd_iff_nat)
  with tri_mod_inj [OF assms(2,3)] show False
    by simp
qed

lemma probe_pos_surj:
  assumes "k \<le> 32" and "t < 2 ^ k"
  shows "\<exists>j<2 ^ k. probe_pos (2 ^ k) src j = t"
proof -
  let ?n = "(2::nat) ^ k"
  let ?f = "probe_pos ?n src"
  have "inj_on ?f {..<?n}"
  proof (rule inj_onI)
    fix x y
    assume "x \<in> {..<?n}" "y \<in> {..<?n}" and eq: "?f x = ?f y"
    then have x: "x < ?n" and y: "y < ?n" by simp_all
    show "x = y"
    proof (rule ccontr)
      assume "x \<noteq> y"
      then consider "x < y" | "y < x" by (auto simp: neq_iff)
      then show False
      proof cases
        case 1
        from probe_pos_inj [OF assms(1) 1 y, of src] eq show False by simp
      next
        case 2
        from probe_pos_inj [OF assms(1) 2 x, of src] eq show False by simp
      qed
    qed
  qed
  then have "card (?f ` {..<?n}) = card {..<?n}"
    by (rule card_image)
  moreover have "?f ` {..<?n} \<subseteq> {..<?n}"
    by (auto simp: probe_pos_less)
  ultimately have "?f ` {..<?n} = {..<?n}"
    by (intro card_subset_eq) simp_all
  with assms(2) have "t \<in> ?f ` {..<?n}" by simp
  then show ?thesis by auto
qed

lemma probe_loop_run:
  assumes len: "length slots = n" and n: "0 < n"
    and stop: "probe_stops slots key (probe_pos n src m)"
    and miss: "\<And>j'. j \<le> j' \<Longrightarrow> j' < m \<Longrightarrow> \<not> probe_stops slots key (probe_pos n src j')"
    and le: "j \<le> m"
  shows "probe_loop slots n key (probe_pos n src j) (j + 1) = Some (Inr (probe_pos n src m))"
  using miss le
proof (induction "m - j" arbitrary: j)
  case 0
  then have j: "j = m" by simp
  have pos: "probe_pos n src m < length slots"
    using len n by (simp add: probe_pos_less)
  show ?case
  proof (cases "slots ! probe_pos n src m")
    case None
    with pos show ?thesis unfolding j by (rule probe_loop_empty)
  next
    case (Some p)
    with stop have "hashmap_key_cmp (Some (pair_key p)) key = 0"
      by (simp add: probe_stops_def)
    with pos Some show ?thesis unfolding j by (rule probe_loop_equal)
  qed
next
  case (Suc d)
  then have lt: "j < m" by simp
  have pos: "probe_pos n src j < length slots"
    using len n by (simp add: probe_pos_less)
  from Suc.prems(1) [of j] lt have "\<not> probe_stops slots key (probe_pos n src j)"
    by simp
  then obtain p where p: "slots ! probe_pos n src j = Some p"
    "hashmap_key_cmp (Some (pair_key p)) key \<noteq> 0"
    by (auto simp: probe_stops_def split: option.splits)
  have "probe_loop slots n key (probe_pos n src j) (j + 1) =
        probe_loop slots n key (probe_pos n src (Suc j)) (Suc j + 1)"
    using probe_loop_miss [OF pos p, of n "j + 1"] by simp
  also have "\<dots> = Some (Inr (probe_pos n src m))"
  proof (rule Suc.hyps(1))
    show "d = m - Suc j" using Suc.hyps(2) by simp
    show "\<not> probe_stops slots key (probe_pos n src j')" if "Suc j \<le> j'" "j' < m" for j'
      using that Suc.prems(1) [of j'] by simp
    show "Suc j \<le> m" using lt by simp
  qed
  finally show ?case .
qed

text \<open>
  C7. For a map whose capacity is a power of two (below \<open>2 ^ 32\<close>, as a \<^verbatim>\<open>ui_t\<close> is) and whose
  array has a slot that is empty or holds a key equal to the probed one, the default probe
  function returns: its result is the first slot in the sequence \<open>start\<close>, \<open>start + 1\<close>,
  \<open>start + 1 + 2\<close>, \<dots> (modulo the capacity) that is empty or holds an equal key, found after
  fewer misses than the capacity. Moreover the first \<open>capacity\<close> positions of the sequence
  reach every slot, from any start.
\<close>

theorem default_probe_terminates:
  assumes size: "data_size h = 2 ^ k" and k: "k < 32"
    and slots: "data h = Some slots" and len: "length slots = data_size h"
    and i: "i < length slots" and stop: "probe_stops slots key i"
  shows "(\<exists>j<2 ^ k.
            hashmap_default_probe_func (Some h) src key = Some (Inr (probe_pos (2 ^ k) src j)) \<and>
            probe_pos (2 ^ k) src j < length slots \<and>
            probe_stops slots key (probe_pos (2 ^ k) src j) \<and>
            (\<forall>j'<j. \<not> probe_stops slots key (probe_pos (2 ^ k) src j'))) \<and>
         (\<forall>t<2 ^ k. \<exists>j<2 ^ k. probe_pos (2 ^ k) src j = t)"
proof
  let ?n = "(2::nat) ^ k"
  let ?S = "\<lambda>j. probe_stops slots key (probe_pos ?n src j)"
  from k have k32: "k \<le> 32" by simp
  from i len size have "i < ?n" by simp
  from probe_pos_surj [OF k32 this, of src] obtain m0 where m0: "m0 < ?n" "probe_pos ?n src m0 = i"
    by blast
  with stop have S0: "?S m0" by simp
  define m where "m = (LEAST j. ?S j)"
  have Sm: "?S m"
    unfolding m_def using S0 by (rule LeastI)
  have least: "\<not> ?S j'" if "j' < m" for j'
    using that not_less_Least unfolding m_def by blast
  have "m \<le> m0"
    unfolding m_def using S0 by (rule Least_le)
  with m0 have m: "m < ?n" by simp
  have n: "0 < ?n" by simp
  have "probe_loop slots ?n key (probe_pos ?n src 0) (0 + 1) = Some (Inr (probe_pos ?n src m))"
    using len size n Sm least by (intro probe_loop_run) simp_all
  then have "hashmap_default_probe_func (Some h) src key = Some (Inr (probe_pos ?n src m))"
    using size slots by (simp add: hashmap_default_probe_func_def)
  moreover have "probe_pos ?n src m < length slots"
    using len size by (simp add: probe_pos_less)
  ultimately show "\<exists>j<2 ^ k.
            hashmap_default_probe_func (Some h) src key = Some (Inr (probe_pos (2 ^ k) src j)) \<and>
            probe_pos (2 ^ k) src j < length slots \<and>
            probe_stops slots key (probe_pos (2 ^ k) src j) \<and>
            (\<forall>j'<j. \<not> probe_stops slots key (probe_pos (2 ^ k) src j'))"
    using m Sm least by blast
next
  from k have "k \<le> 32" by simp
  then show "\<forall>t<2 ^ k. \<exists>j<2 ^ k. probe_pos (2 ^ k) src j = t"
    using probe_pos_surj by blast
qed

theorem default_probe_terminates_witness:
  "data_size map_ae = 2 ^ 2 \<and> (2::nat) < 32 \<and>
   data map_ae = Some [None, Some pair_a, Some pair_e, None] \<and>
   length [None, Some pair_a, Some pair_e, None] = data_size map_ae \<and>
   2 < length [None, Some pair_a, Some pair_e, None] \<and>
   probe_stops [None, Some pair_a, Some pair_e, None] (Some ''e'') 2 \<and>
   hashmap_default_probe_func (Some map_ae) 101 (Some ''e'') = Some (Inr 2) \<and>
   (\<exists>j<2 ^ 2. hashmap_default_probe_func (Some map_ae) 101 (Some ''e'')
                 = Some (Inr (probe_pos (2 ^ 2) 101 j)))"
proof -
  have size: "data_size map_ae = 2 ^ 2" and k: "(2::nat) < 32"
    and slots: "data map_ae = Some [None, Some pair_a, Some pair_e, None]"
    and len: "length [None, Some pair_a, Some pair_e, None] = data_size map_ae"
    and i: "2 < length [None, Some pair_a, Some pair_e, None]"
    and stop: "probe_stops [None, Some pair_a, Some pair_e, None] (Some ''e'') 2"
    by (simp_all add: scenario_defs probe_stops_def)
  have run: "hashmap_default_probe_func (Some map_ae) 101 (Some ''e'') = Some (Inr 2)"
    by (simp add: eval_simps scenario_defs)
  from default_probe_terminates [OF size k slots len i stop, of 101]
  have "\<exists>j<2 ^ 2. hashmap_default_probe_func (Some map_ae) 101 (Some ''e'')
                 = Some (Inr (probe_pos (2 ^ 2) 101 j))"
    by blast
  with size k slots len i stop run show ?thesis
    by blast
qed

end
